theory Spec2Isabelle
  imports Complex_Main
begin

section \<open>The Fibonacci heap of fheap.go, as a program over an explicit store\<close>

text \<open>
  The Go code works on heap-allocated \<open>Entry\<close> structs that point at each other
  (circular sibling rings, parent and child links), so the model keeps an explicit
  store: a function from addresses to entries. A Go pointer \<open>*Entry\<close> that may be
  \<open>nil\<close> is an \<open>addr option\<close>. The fields \<open>next\<close> and \<open>prev\<close> are plain
  addresses: \<open>newEntry\<close> is the only constructor, it sets both to the entry itself,
  and every later assignment to them stores a pointer that was just dereferenced, so
  they are never \<open>nil\<close>.
\<close>

type_synonym addr = nat

subsection \<open>Priorities: float64 and its comparisons\<close>

text \<open>
  The code only compares priorities. A \<open>float64\<close> is modelled by its position in
  the order: not-a-number, the two infinities, or a finite value. The comparisons
  are Go's: every comparison with \<open>NaN\<close> is false.
\<close>

datatype float64 = NaN | NegInf | Fin real | PosInf

fun lt64 :: "float64 \<Rightarrow> float64 \<Rightarrow> bool" where
  "lt64 (Fin x) (Fin y) = (x < y)"
| "lt64 NegInf (Fin y) = True"
| "lt64 NegInf PosInf = True"
| "lt64 (Fin x) PosInf = True"
| "lt64 _ _ = False"

fun le64 :: "float64 \<Rightarrow> float64 \<Rightarrow> bool" where
  "le64 (Fin x) (Fin y) = (x \<le> y)"
| "le64 NegInf NegInf = True"
| "le64 PosInf PosInf = True"
| "le64 NegInf (Fin y) = True"
| "le64 NegInf PosInf = True"
| "le64 (Fin x) PosInf = True"
| "le64 _ _ = False"

subsection \<open>Entries, heaps, the store\<close>

record 'e Entry =
  degree :: int
  marked :: bool
  "next" :: addr
  prev :: addr
  parent :: "addr option"
  child :: "addr option"
  Element :: 'e
  Priority :: float64

text \<open>The fields \<open>min\<close> and \<open>size\<close> of \<open>FibHeap\<close> clash with constants of HOL.\<close>

record FibHeap =
  min_entry :: "addr option"
  size_count :: int

type_synonym 'e store = "addr \<Rightarrow> 'e Entry"

text \<open>
  A panic of the Go runtime is an error value. \<open>OutOfFuel\<close> is not a panic: the
  loops that follow pointers take a bound on their number of iterations, and
  exhausting it stands for a loop that has not returned yet.
\<close>

datatype panic = NilDeref | IndexOutOfRange | OutOfFuel

datatype goerror = ErrorExceedsPriority

text \<open>Assignments to one field of the entry at an address.\<close>

definition set_degree :: "'e store \<Rightarrow> addr \<Rightarrow> int \<Rightarrow> 'e store" where
  "set_degree s a v = s(a := (s a)\<lparr>degree := v\<rparr>)"

definition set_marked :: "'e store \<Rightarrow> addr \<Rightarrow> bool \<Rightarrow> 'e store" where
  "set_marked s a v = s(a := (s a)\<lparr>marked := v\<rparr>)"

definition set_next :: "'e store \<Rightarrow> addr \<Rightarrow> addr \<Rightarrow> 'e store" where
  "set_next s a v = s(a := (s a)\<lparr>next := v\<rparr>)"

definition set_prev :: "'e store \<Rightarrow> addr \<Rightarrow> addr \<Rightarrow> 'e store" where
  "set_prev s a v = s(a := (s a)\<lparr>prev := v\<rparr>)"

definition set_parent :: "'e store \<Rightarrow> addr \<Rightarrow> addr option \<Rightarrow> 'e store" where
  "set_parent s a v = s(a := (s a)\<lparr>parent := v\<rparr>)"

definition set_child :: "'e store \<Rightarrow> addr \<Rightarrow> addr option \<Rightarrow> 'e store" where
  "set_child s a v = s(a := (s a)\<lparr>child := v\<rparr>)"

definition set_Priority :: "'e store \<Rightarrow> addr \<Rightarrow> float64 \<Rightarrow> 'e store" where
  "set_Priority s a v = s(a := (s a)\<lparr>Priority := v\<rparr>)"

subsection \<open>newEntry, mergeLists, Enqueue, Min, Len, MergeFibHeap\<close>

text \<open>
  \<open>newEntry\<close> allocates: the address \<open>a\<close> is the one the allocator hands out, and
  the whole entry at \<open>a\<close> is written.
\<close>

definition newEntry :: "'e store \<Rightarrow> addr \<Rightarrow> 'e \<Rightarrow> float64 \<Rightarrow> 'e store" where
  "newEntry s a element priority =
     s(a := \<lparr>degree = 0, marked = False, next = a, prev = a, parent = None,
             child = None, Element = element, Priority = priority\<rparr>)"

text \<open>
  \<open>mergeLists\<close>: the four pointer assignments in the order of the source, each
  reading the store the previous one left, then the pointer to the smaller of the two.
\<close>

definition mergeLists :: "'e store \<Rightarrow> addr option \<Rightarrow> addr option \<Rightarrow> 'e store \<times> addr option" where
  "mergeLists s one two =
     (case one of
        None \<Rightarrow> (case two of None \<Rightarrow> (s, None) | Some b \<Rightarrow> (s, Some b))
      | Some a \<Rightarrow>
         (case two of
            None \<Rightarrow> (s, Some a)
          | Some b \<Rightarrow>
             (let oneNext = next (s a);
                  s1 = set_next s a (next (s b));
                  s2 = set_prev s1 (next (s1 a)) a;
                  s3 = set_next s2 b oneNext;
                  s4 = set_prev s3 (next (s3 b)) b
              in (s4, if lt64 (Priority (s4 a)) (Priority (s4 b)) then Some a else Some b))))"

text \<open>\<open>checkPriority\<close> has an empty body, so \<open>Enqueue\<close> accepts every priority.\<close>

definition Enqueue :: "'e store \<Rightarrow> FibHeap \<Rightarrow> addr \<Rightarrow> 'e \<Rightarrow> float64 \<Rightarrow> 'e store \<times> FibHeap \<times> addr" where
  "Enqueue s f a element priority =
     (let s1 = newEntry s a element priority;
          r = mergeLists s1 (min_entry f) (Some a)
      in (fst r, f\<lparr>min_entry := snd r, size_count := size_count f + 1\<rparr>, a))"


definition Len_heap :: "FibHeap \<Rightarrow> int" where
  "Len_heap f = size_count f"

text \<open>
  \<open>MergeFibHeap\<close> returns the store, the new heap, and the two argument heaps as
  it leaves them. The two arguments are two heap objects.
\<close>

definition MergeFibHeap :: "'e store \<Rightarrow> FibHeap \<Rightarrow> FibHeap \<Rightarrow> 'e store \<times> FibHeap \<times> FibHeap \<times> FibHeap" where
  "MergeFibHeap s one two =
     (let r = mergeLists s (min_entry one) (min_entry two);
          result = \<lparr>min_entry = snd r, size_count = size_count one + size_count two\<rparr>
      in (fst r, result, one\<lparr>min_entry := None, size_count := 0\<rparr>,
          two\<lparr>min_entry := None, size_count := 0\<rparr>))"

subsection \<open>DequeueMin\<close>

text \<open>
  The loop that clears the parent pointers of the children of the extracted entry
  \<open>m\<close>: a do-while around the child ring, which re-reads \<open>m.child\<close> at every test.
\<close>

fun clear_parents :: "nat \<Rightarrow> 'e store \<Rightarrow> addr \<Rightarrow> addr \<Rightarrow> panic + 'e store" where
  "clear_parents 0 s m cur = Inl OutOfFuel"
| "clear_parents (Suc n) s m cur =
     (let s1 = set_parent s cur None;
          cur1 = next (s1 cur)
      in if Some cur1 = child (s1 m) then Inr s1 else clear_parents n s1 m cur1)"

text \<open>The loop that fills \<open>toVisit\<close>: once around the root ring from \<open>f.min\<close>.\<close>

fun collect :: "nat \<Rightarrow> 'e store \<Rightarrow> addr list \<Rightarrow> addr \<Rightarrow> panic + addr list" where
  "collect 0 s toVisit cur = Inl OutOfFuel"
| "collect (Suc n) s toVisit cur =
     (if toVisit = [] \<or> hd toVisit \<noteq> cur
      then collect n s (toVisit @ [cur]) (next (s cur))
      else Inr toVisit)"

text \<open>The loop that extends \<open>treeTable\<close> with \<open>nil\<close> up to index \<open>d\<close>.\<close>

function grow :: "addr option list \<Rightarrow> int \<Rightarrow> addr option list" where
  "grow treeTable d = (if d \<ge> int (length treeTable) then grow (treeTable @ [None]) d else treeTable)"
  by pat_completeness auto
termination
  by (relation "measure (\<lambda>(t, d). nat (d + 1 - int (length t)))") auto

text \<open>
  One merge of two roots of equal degree (the statements after the choice of \<open>min\<close>
  and \<open>max\<close>): \<open>mx\<close> leaves the root ring, becomes a singleton and joins the child
  ring of \<open>mn\<close>.
\<close>

definition link :: "'e store \<Rightarrow> addr \<Rightarrow> addr \<Rightarrow> 'e store" where
  "link s mn mx =
     (let s1 = set_prev s (next (s mx)) (prev (s mx));
          s2 = set_next s1 (prev (s1 mx)) (next (s1 mx));
          s3 = set_next s2 mx mx;
          s4 = set_prev s3 mx mx;
          r = mergeLists s4 (child (s4 mn)) (Some mx);
          s5 = set_child (fst r) mn (snd r);
          s6 = set_parent s5 mx (Some mn);
          s7 = set_marked s6 mx False
      in set_degree s7 mn (degree (s7 mn) + 1))"

definition count_some :: "addr option list \<Rightarrow> nat" where
  "count_some t = length (filter (\<lambda>x. x \<noteq> None) t)"

lemma grow_eq: "grow t d = t @ replicate (nat (d + 1 - int (length t))) None"
proof (induction t d rule: grow.induct)
  case (1 t d)
  show ?case
  proof (cases "d \<ge> int (length t)")
    case True
    then have "nat (d + 1 - int (length t)) = Suc (nat (d + 1 - int (length (t @ [None]))))"
      by simp
    with 1 True show ?thesis
      by (simp add: replicate_app_Cons_same del: grow.simps add: grow.simps[of t d])
  next
    case False
    then show ?thesis by simp
  qed
qed

lemma count_some_grow: "count_some (grow t d) = count_some t"
  by (simp add: grow_eq count_some_def del: grow.simps)

lemma count_some_clear:
  assumes "i < length t" and "t ! i = Some x"
  shows "count_some (t[i := None]) < count_some t"
proof -
  have t: "t = take i t @ Some x # drop (Suc i) t"
    using assms by (metis id_take_nth_drop)
  have "t[i := None] = take i t @ None # drop (Suc i) t"
    using assms by (simp add: upd_conv_take_nth_drop)
  then have "count_some (t[i := None]) = count_some (take i t) + count_some (drop (Suc i) t)"
    by (simp add: count_some_def)
  moreover have "count_some t = count_some (take i t) + Suc (count_some (drop (Suc i) t))"
    by (subst t) (simp add: count_some_def)
  ultimately show ?thesis by simp
qed

text \<open>
  The choice of \<open>min\<close> and \<open>max\<close> between the entry in the table and the current
  one (\<open>if other.Priority < curr.Priority\<close>).
\<close>

definition smaller :: "'e store \<Rightarrow> addr \<Rightarrow> addr \<Rightarrow> addr" where
  "smaller s other cur = (if lt64 (Priority (s other)) (Priority (s cur)) then other else cur)"

definition larger :: "'e store \<Rightarrow> addr \<Rightarrow> addr \<Rightarrow> addr" where
  "larger s other cur = (if lt64 (Priority (s other)) (Priority (s cur)) then cur else other)"

text \<open>
  The inner loop of the consolidation ("keep merging until a match arises"). A
  negative degree makes the index expression panic. The loop always ends: every
  turn that does not stop empties one slot of the table.
\<close>

function link_loop :: "'e store \<Rightarrow> addr option list \<Rightarrow> addr \<Rightarrow> panic + ('e store \<times> addr option list \<times> addr)" where
  "link_loop s treeTable cur =
     (if degree (s cur) < 0 then Inl IndexOutOfRange
      else
        (case grow treeTable (degree (s cur)) ! nat (degree (s cur)) of
           None \<Rightarrow> Inr (s, (grow treeTable (degree (s cur)))[nat (degree (s cur)) := Some cur], cur)
         | Some other \<Rightarrow>
             link_loop (link s (smaller s other cur) (larger s other cur))
               ((grow treeTable (degree (s cur)))[nat (degree (s cur)) := None])
               (smaller s other cur)))"
  by pat_completeness auto
termination
proof (relation "measure (\<lambda>(s, t, c). count_some t)")
  show "wf (measure (\<lambda>(s, t, c). count_some t))" by simp
next
  fix s :: "'e store" and treeTable cur other
  assume a: "\<not> degree (s cur) < 0"
    "grow treeTable (degree (s cur)) ! nat (degree (s cur)) = Some other"
  have "nat (degree (s cur)) < length (grow treeTable (degree (s cur)))"
    using a(1) by (simp add: grow_eq del: grow.simps)
  from count_some_clear[OF this a(2)]
  have "count_some ((grow treeTable (degree (s cur)))[nat (degree (s cur)) := None]) < count_some treeTable"
    by (simp add: count_some_grow del: grow.simps)
  then show "((link s (smaller s other cur) (larger s other cur),
         (grow treeTable (degree (s cur)))[nat (degree (s cur)) := None], smaller s other cur),
        s, treeTable, cur) \<in> measure (\<lambda>(s, t, c). count_some t)"
    by simp
qed

text \<open>The outer loop over \<open>toVisit\<close>, with the update of \<open>f.min\<close> after each entry.\<close>

fun consolidate :: "'e store \<Rightarrow> FibHeap \<Rightarrow> addr option list \<Rightarrow> addr list \<Rightarrow> panic + ('e store \<times> FibHeap \<times> addr option list)" where
  "consolidate s f treeTable [] = Inr (s, f, treeTable)"
| "consolidate s f treeTable (cur # rest) =
     (case link_loop s treeTable cur of
        Inl e \<Rightarrow> Inl e
      | Inr (s1, treeTable1, cur1) \<Rightarrow>
          (case min_entry f of
             None \<Rightarrow> Inl NilDeref
           | Some m \<Rightarrow>
               consolidate s1
                 (if le64 (Priority (s1 cur1)) (Priority (s1 m)) then f\<lparr>min_entry := Some cur1\<rparr> else f)
                 treeTable1 rest))"

text \<open>
  \<open>DequeueMin\<close> returns the store, the heap and the pointer result. It also
  returns the final \<open>treeTable\<close>, a local of the source that the statements about
  the consolidation refer to (empty on the paths that return before it).
\<close>

text \<open>
  The three steps before the consolidation are the removal of \<open>m\<close> from the
  root ring (\<open>unlink_min\<close>), the loop over the children of \<open>m\<close> when it has one
  (\<open>clear_children\<close>) and the merge of the two rings.
\<close>

definition unlink_min :: "'e store \<Rightarrow> FibHeap \<Rightarrow> addr \<Rightarrow> 'e store \<times> FibHeap" where
  "unlink_min s f m =
     (if next (s m) = m then (s, f\<lparr>min_entry := None\<rparr>)
      else
        (let s1 = set_next s (prev (s m)) (next (s m));
             s2 = set_prev s1 (next (s1 m)) (prev (s1 m))
         in (s2, f\<lparr>min_entry := Some (next (s2 m))\<rparr>)))"

definition clear_children :: "nat \<Rightarrow> 'e store \<Rightarrow> addr \<Rightarrow> panic + 'e store" where
  "clear_children fuel s m =
     (case child (s m) of None \<Rightarrow> Inr s | Some c \<Rightarrow> clear_parents fuel s m c)"

definition DequeueMin_table :: "nat \<Rightarrow> 'e store \<Rightarrow> FibHeap \<Rightarrow> panic + ('e store \<times> FibHeap \<times> addr option \<times> addr option list)" where
  "DequeueMin_table fuel s f =
     (if size_count f = 0 then Inr (s, f, None, [])
      else
        (let f1 = f\<lparr>size_count := size_count f - 1\<rparr> in
         case min_entry f1 of
           None \<Rightarrow> Inl NilDeref
         | Some m \<Rightarrow>
            (let u = unlink_min s f1 m in
             case clear_children fuel (fst u) m of
               Inl e \<Rightarrow> Inl e
             | Inr s3 \<Rightarrow>
                (let r = mergeLists s3 (min_entry (snd u)) (child (s3 m));
                     f3 = (snd u)\<lparr>min_entry := snd r\<rparr>
                 in case min_entry f3 of
                      None \<Rightarrow> Inr (fst r, f3, Some m, [])
                    | Some c0 \<Rightarrow>
                       (case collect fuel (fst r) [] c0 of
                          Inl e \<Rightarrow> Inl e
                        | Inr toVisit \<Rightarrow>
                           (case consolidate (fst r) f3 [] toVisit of
                              Inl e \<Rightarrow> Inl e
                            | Inr (s5, f5, treeTable) \<Rightarrow> Inr (s5, f5, Some m, treeTable)))))))"

definition DequeueMin :: "nat \<Rightarrow> 'e store \<Rightarrow> FibHeap \<Rightarrow> panic + ('e store \<times> FibHeap \<times> addr option)" where
  "DequeueMin fuel s f =
     (case DequeueMin_table fuel s f of
        Inl e \<Rightarrow> Inl e
      | Inr (s1, f1, r, treeTable) \<Rightarrow> Inr (s1, f1, r))"

subsection \<open>DecreaseKey, Delete, cutNode\<close>

text \<open>
  \<open>cutNode\<close>, in the blocks of the source. \<open>unlink_entry\<close> rewires the siblings
  of \<open>e\<close> around it; \<open>repoint_child\<close> moves the child pointer of the parent \<open>p\<close>
  off \<open>e\<close>; \<open>cut_step\<close> is the cut itself: the two, the decrement of the degree of
  \<open>p\<close>, and the splice of \<open>e\<close>, as a singleton, into the root ring.
\<close>

definition unlink_entry :: "'e store \<Rightarrow> addr \<Rightarrow> 'e store" where
  "unlink_entry s e =
     (if next (s e) \<noteq> e
      then (let sa = set_prev s (next (s e)) (prev (s e))
            in set_next sa (prev (sa e)) (next (sa e)))
      else s)"

definition repoint_child :: "'e store \<Rightarrow> addr \<Rightarrow> addr \<Rightarrow> 'e store" where
  "repoint_child s e p =
     (if child (s p) = Some e
      then (if next (s e) \<noteq> e then set_child s p (Some (next (s e)))
            else set_child s p None)
      else s)"

definition cut_step :: "'e store \<Rightarrow> FibHeap \<Rightarrow> addr \<Rightarrow> addr \<Rightarrow> 'e store \<times> FibHeap" where
  "cut_step s f e p =
     (let s2 = unlink_entry s e;
          s3 = repoint_child s2 e p;
          s4 = set_degree s3 p (degree (s3 p) - 1);
          s5 = set_prev s4 e e;
          s6 = set_next s5 e e;
          r = mergeLists s6 (min_entry f) (Some e)
      in (fst r, f\<lparr>min_entry := snd r\<rparr>))"

text \<open>
  The parent \<open>p\<close> is read once, since no statement before the last one writes a
  parent field; the last statement, \<open>e.parent = nil\<close>, comes after the recursive
  call, as in the source. The fuel bounds the depth of the recursion.
\<close>

fun cutNode :: "nat \<Rightarrow> 'e store \<Rightarrow> FibHeap \<Rightarrow> addr \<Rightarrow> panic + ('e store \<times> FibHeap)" where
  "cutNode 0 s f e = Inl OutOfFuel"
| "cutNode (Suc n) s f e =
     (let s1 = set_marked s e False in
      case parent (s1 e) of
        None \<Rightarrow> Inr (s1, f)
      | Some p \<Rightarrow>
         (let c = cut_step s1 f e p in
          if marked (fst c p)
          then (case cutNode n (fst c) (snd c) p of
                  Inl err \<Rightarrow> Inl err
                | Inr (s8, f2) \<Rightarrow> Inr (set_parent s8 e None, f2))
          else Inr (set_parent (set_marked (fst c) p True) e None, snd c)))"

definition decreaseKeyUnchecked :: "nat \<Rightarrow> 'e store \<Rightarrow> FibHeap \<Rightarrow> addr \<Rightarrow> float64 \<Rightarrow> panic + ('e store \<times> FibHeap)" where
  "decreaseKeyUnchecked fuel s f e priority =
     (let s1 = set_Priority s e priority in
      case (case parent (s1 e) of
              None \<Rightarrow> Inr (s1, f)
            | Some p \<Rightarrow>
                if le64 (Priority (s1 e)) (Priority (s1 p)) then cutNode fuel s1 f e
                else Inr (s1, f)) of
        Inl err \<Rightarrow> Inl err
      | Inr (s2, f2) \<Rightarrow>
         (case min_entry f2 of
            None \<Rightarrow> Inl NilDeref
          | Some m \<Rightarrow>
              Inr (s2, if le64 (Priority (s2 e)) (Priority (s2 m)) then f2\<lparr>min_entry := Some e\<rparr> else f2)))"

text \<open>
  \<open>DecreaseKey\<close> returns Go's \<open>error\<close> result as an option; \<open>newPriority >
  e.Priority\<close> is \<open>lt64\<close> with the arguments exchanged.
\<close>

definition DecreaseKey :: "nat \<Rightarrow> 'e store \<Rightarrow> FibHeap \<Rightarrow> addr \<Rightarrow> float64 \<Rightarrow> panic + ('e store \<times> FibHeap \<times> goerror option)" where
  "DecreaseKey fuel s f e newPriority =
     (if lt64 (Priority (s e)) newPriority then Inr (s, f, Some ErrorExceedsPriority)
      else
        (case decreaseKeyUnchecked fuel s f e newPriority of
           Inl err \<Rightarrow> Inl err
         | Inr (s1, f1) \<Rightarrow> Inr (s1, f1, None)))"

definition Delete :: "nat \<Rightarrow> 'e store \<Rightarrow> FibHeap \<Rightarrow> addr \<Rightarrow> panic + ('e store \<times> FibHeap)" where
  "Delete fuel s f e =
     (case decreaseKeyUnchecked fuel s f e NegInf of
        Inl err \<Rightarrow> Inl err
      | Inr (s1, f1) \<Rightarrow>
         (case DequeueMin fuel s1 f1 of
            Inl err \<Rightarrow> Inl err
          | Inr (s2, f2, r) \<Rightarrow> Inr (s2, f2)))"

subsection \<open>Heap objects, worlds and the public interface\<close>

text \<open>
  The entries of a heap are the ones its \<open>min\<close> pointer reaches through \<open>next\<close>
  and \<open>child\<close> pointers; an entry belongs to a heap when it is one of them.
\<close>

inductive_set entries :: "'e store \<Rightarrow> FibHeap \<Rightarrow> addr set" for s :: "'e store" and f :: FibHeap where
  entries_min: "min_entry f = Some m \<Longrightarrow> m \<in> entries s f"
| entries_next: "a \<in> entries s f \<Longrightarrow> next (s a) \<in> entries s f"
| entries_child: "a \<in> entries s f \<Longrightarrow> child (s a) = Some c \<Longrightarrow> c \<in> entries s f"

text \<open>
  A world is the store, the number of entries allocated so far (the allocator hands
  out the addresses in order) and the heap objects of the program, a heap pointer
  being an index into the list.
\<close>

record 'e world =
  mem :: "'e store"
  nalloc :: nat
  heaps :: "FibHeap list"

definition w_new :: "'e world \<Rightarrow> 'e world" where
  "w_new w = w\<lparr>heaps := heaps w @ [\<lparr>min_entry = None, size_count = 0\<rparr>]\<rparr>"

definition w_enqueue :: "'e world \<Rightarrow> nat \<Rightarrow> 'e \<Rightarrow> float64 \<Rightarrow> 'e world" where
  "w_enqueue w i element priority =
     (case Enqueue (mem w) (heaps w ! i) (nalloc w) element priority of
        (s', f', a) \<Rightarrow> \<lparr>mem = s', nalloc = Suc (nalloc w), heaps = (heaps w)[i := f']\<rparr>)"

definition w_dequeue :: "nat \<Rightarrow> 'e world \<Rightarrow> nat \<Rightarrow> panic + 'e world" where
  "w_dequeue fuel w i =
     (case DequeueMin fuel (mem w) (heaps w ! i) of
        Inl err \<Rightarrow> Inl err
      | Inr (s', f', r) \<Rightarrow> Inr \<lparr>mem = s', nalloc = nalloc w, heaps = (heaps w)[i := f']\<rparr>)"

definition w_decrease :: "nat \<Rightarrow> 'e world \<Rightarrow> nat \<Rightarrow> addr \<Rightarrow> float64 \<Rightarrow> panic + 'e world" where
  "w_decrease fuel w i e newPriority =
     (case DecreaseKey fuel (mem w) (heaps w ! i) e newPriority of
        Inl err \<Rightarrow> Inl err
      | Inr (s', f', r) \<Rightarrow> Inr \<lparr>mem = s', nalloc = nalloc w, heaps = (heaps w)[i := f']\<rparr>)"

definition w_delete :: "nat \<Rightarrow> 'e world \<Rightarrow> nat \<Rightarrow> addr \<Rightarrow> panic + 'e world" where
  "w_delete fuel w i e =
     (case Delete fuel (mem w) (heaps w ! i) e of
        Inl err \<Rightarrow> Inl err
      | Inr (s', f') \<Rightarrow> Inr \<lparr>mem = s', nalloc = nalloc w, heaps = (heaps w)[i := f']\<rparr>)"

definition w_merge :: "'e world \<Rightarrow> nat \<Rightarrow> nat \<Rightarrow> 'e world" where
  "w_merge w i j =
     (case MergeFibHeap (mem w) (heaps w ! i) (heaps w ! j) of
        (s', res, one', two') \<Rightarrow>
          \<lparr>mem = s', nalloc = nalloc w, heaps = (heaps w)[i := one', j := two'] @ [res]\<rparr>)"

text \<open>
  The calls of the public interface that change the world (\<open>Min\<close> and \<open>Len\<close> leave
  it as it is), and what each does. A call is used as documented when the heaps it
  names exist, a merge names two different heaps, a priority is a number (the
  comment of \<open>checkPriority\<close> asks for a valid double; its body checks nothing),
  and the entry given to \<open>DecreaseKey\<close> or \<open>Delete\<close> belongs to the heap.
\<close>

datatype 'e call =
    NewHeap
  | CallEnqueue nat 'e float64
  | CallDequeueMin nat
  | CallDecreaseKey nat addr float64
  | CallDelete nat addr
  | CallMerge nat nat

fun exec :: "nat \<Rightarrow> 'e world \<Rightarrow> 'e call \<Rightarrow> panic + 'e world" where
  "exec fuel w NewHeap = Inr (w_new w)"
| "exec fuel w (CallEnqueue i element priority) = Inr (w_enqueue w i element priority)"
| "exec fuel w (CallDequeueMin i) = w_dequeue fuel w i"
| "exec fuel w (CallDecreaseKey i e newPriority) = w_decrease fuel w i e newPriority"
| "exec fuel w (CallDelete i e) = w_delete fuel w i e"
| "exec fuel w (CallMerge i j) = Inr (w_merge w i j)"

fun valid_call :: "'e world \<Rightarrow> 'e call \<Rightarrow> bool" where
  "valid_call w NewHeap = True"
| "valid_call w (CallEnqueue i element priority) = (i < length (heaps w) \<and> priority \<noteq> NaN)"
| "valid_call w (CallDequeueMin i) = (i < length (heaps w))"
| "valid_call w (CallDecreaseKey i e newPriority) =
     (i < length (heaps w) \<and> e \<in> entries (mem w) (heaps w ! i) \<and> newPriority \<noteq> NaN)"
| "valid_call w (CallDelete i e) = (i < length (heaps w) \<and> e \<in> entries (mem w) (heaps w ! i))"
| "valid_call w (CallMerge i j) = (i < length (heaps w) \<and> j < length (heaps w) \<and> i \<noteq> j)"

text \<open>
  \<open>later w w'\<close>: the world \<open>w'\<close> comes from \<open>w\<close> by a sequence of calls, each used
  as documented and each returning. \<open>reach w\<close>: the world \<open>w\<close> comes in that way
  from a program start, where nothing is allocated and there is no heap.
\<close>

inductive later :: "'e world \<Rightarrow> 'e world \<Rightarrow> bool" for w :: "'e world" where
  later_refl: "later w w"
| later_step: "later w w' \<Longrightarrow> valid_call w' c \<Longrightarrow> exec fuel w' c = Inr w'' \<Longrightarrow> later w w''"

definition reach :: "'e world \<Rightarrow> bool" where
  "reach w = (\<exists>s0. later \<lparr>mem = s0, nalloc = 0, heaps = []\<rparr> w)"

subsection \<open>Some concrete runs\<close>

text \<open>
  A store of unallocated memory, and the worlds of a short run on one heap: three
  entries with priorities 1, 2 and 3 at the addresses 0, 1 and 2, then a
  \<open>DequeueMin\<close>, which extracts entry 0 and makes entry 2 a child of entry 1, then
  a \<open>DecreaseKey\<close> of entry 2 to priority 0, which cuts it from entry 1.
\<close>

definition blank :: "unit Entry" where
  "blank = \<lparr>degree = 0, marked = False, next = 0, prev = 0, parent = None, child = None,
             Element = (), Priority = NaN\<rparr>"

definition run0 :: "unit world" where
  "run0 = \<lparr>mem = (\<lambda>_. blank), nalloc = 0, heaps = []\<rparr>"

definition run3 :: "unit world" where
  "run3 = w_enqueue (w_enqueue (w_enqueue (w_new run0) 0 () (Fin 1)) 0 () (Fin 2)) 0 () (Fin 3)"

definition run4 :: "unit world" where
  "run4 = (case w_dequeue 3 run3 0 of Inr w \<Rightarrow> w | Inl e \<Rightarrow> run3)"

definition run5 :: "unit world" where
  "run5 = (case w_decrease 3 run4 0 2 (Fin 0) of Inr w \<Rightarrow> w | Inl e \<Rightarrow> run4)"

definition runS :: "unit world" where
  "runS = w_enqueue (w_enqueue (w_enqueue (w_enqueue (w_new run0) 0 () (Fin 5)) 0 () (Fin 3)) 0 () (Fin 8)) 0 () (Fin 1)"

definition runS1 :: "unit world" where
  "runS1 = (case w_dequeue 4 runS 0 of Inr w \<Rightarrow> w | Inl e \<Rightarrow> runS)"


subsection \<open>A client that empties a heap\<close>


section \<open>What the properties speak of\<close>

text \<open>
  \<open>least_in s f m\<close>: the entry \<open>m\<close> belongs to the heap and no entry of the heap
  has a smaller priority. \<open>roots_differ s f\<close>: two different roots of the heap have
  different degrees. \<open>all_entries w\<close>: the entries of all the heaps of a world.
\<close>

definition least_in :: "'e store \<Rightarrow> FibHeap \<Rightarrow> addr \<Rightarrow> bool" where
  "least_in s f m = (m \<in> entries s f \<and> (\<forall>a\<in>entries s f. le64 (Priority (s m)) (Priority (s a))))"

definition roots_differ :: "'e store \<Rightarrow> FibHeap \<Rightarrow> bool" where
  "roots_differ s f =
     (\<forall>r1\<in>entries s f. \<forall>r2\<in>entries s f.
        parent (s r1) = None \<longrightarrow> parent (s r2) = None \<longrightarrow> r1 \<noteq> r2 \<longrightarrow> degree (s r1) \<noteq> degree (s r2))"

definition all_entries :: "'e world \<Rightarrow> addr set" where
  "all_entries w = (\<Union>i<length (heaps w). entries (mem w) (heaps w ! i))"

text \<open>
  \<open>ancestor s a e\<close>: following the parent pointers from \<open>e\<close>, one step or more,
  leads to \<open>a\<close>.
\<close>

definition parent_rel :: "'e store \<Rightarrow> (addr \<times> addr) set" where
  "parent_rel s = {(p, c). parent (s c) = Some p}"

definition ancestor :: "'e store \<Rightarrow> addr \<Rightarrow> addr \<Rightarrow> bool" where
  "ancestor s a e = ((a, e) \<in> (parent_rel s)\<^sup>+)"

text \<open>
  The ways in which a call can leave an entry \<open>a\<close> a marked root that was not one
  before: \<open>DequeueMin\<close> makes the children of the minimum roots and keeps their
  marks; \<open>cutNode\<close>, from \<open>DecreaseKey\<close> or \<open>Delete\<close> of an entry \<open>e\<close>, marks the
  parent of the last entry it cuts, an ancestor of \<open>e\<close>, also when that parent is a
  root; \<open>Delete\<close> then extracts \<open>e\<close> and makes its children roots.
\<close>

fun makes_marked_root :: "'e world \<Rightarrow> 'e call \<Rightarrow> addr \<Rightarrow> bool" where
  "makes_marked_root w (CallDequeueMin i) a =
     (marked (mem w a) \<and> parent (mem w a) \<noteq> None \<and> parent (mem w a) = min_entry (heaps w ! i))"
| "makes_marked_root w (CallDecreaseKey i e p) a =
     (parent (mem w a) = None \<and> ancestor (mem w) a e)"
| "makes_marked_root w (CallDelete i e) a =
     ((parent (mem w a) = None \<and> ancestor (mem w) a e)
      \<or> (marked (mem w a) \<and> parent (mem w a) = Some e))"
| "makes_marked_root w NewHeap a = False"
| "makes_marked_root w (CallEnqueue i el p) a = False"
| "makes_marked_root w (CallMerge i j) a = False"

section \<open>Well-formed heaps\<close>

subsection \<open>Rings\<close>

text \<open>
  \<open>chain s a xs z\<close>: the \<open>next\<close> pointers lead from \<open>a\<close> through \<open>xs\<close> to \<open>z\<close>, and
  the \<open>prev\<close> pointers lead back. \<open>ring s xs\<close>: the entries \<open>xs\<close>, all different, form
  a circular doubly linked list in this order. \<open>is_ring s A\<close>: the set \<open>A\<close> is such
  a ring in some order.
\<close>

fun chain :: "'e store \<Rightarrow> addr \<Rightarrow> addr list \<Rightarrow> addr \<Rightarrow> bool" where
  "chain s a [] z = (next (s a) = z \<and> prev (s z) = a)"
| "chain s a (x # xs) z = (next (s a) = x \<and> prev (s x) = a \<and> chain s x xs z)"

definition ring :: "'e store \<Rightarrow> addr list \<Rightarrow> bool" where
  "ring s xs = (case xs of [] \<Rightarrow> False | a # as \<Rightarrow> distinct xs \<and> chain s a as a)"

definition is_ring :: "'e store \<Rightarrow> addr set \<Rightarrow> bool" where
  "is_ring s A = (\<exists>xs. set xs = A \<and> ring s xs)"

text \<open>
  Three store transformers that the proofs use to name what a block of assignments
  does: \<open>splice_out\<close> takes an entry out of its ring (its own pointers stay),
  \<open>alone\<close> makes an entry a ring of its own, \<open>clear_all\<close> clears the parent pointer
  of a set of entries.
\<close>

definition splice_out :: "'e store \<Rightarrow> addr \<Rightarrow> 'e store" where
  "splice_out s a = set_prev (set_next s (prev (s a)) (next (s a))) (next (s a)) (prev (s a))"

definition alone :: "'e store \<Rightarrow> addr \<Rightarrow> 'e store" where
  "alone s a = set_prev (set_next s a a) a a"

definition clear_all :: "'e store \<Rightarrow> addr set \<Rightarrow> 'e store" where
  "clear_all s A = (\<lambda>x. if x \<in> A then (s x)\<lparr>parent := None\<rparr> else s x)"

subsection \<open>The invariant of a heap\<close>

text \<open>
  A heap is described by the set \<open>L\<close> of its entries and the forest \<open>G\<close> on them
  (\<open>G a\<close> is the parent of \<open>a\<close>, \<open>None\<close> for a root). \<open>sibs L G po\<close> are the entries
  with parent \<open>po\<close>: the roots for \<open>None\<close>, the children of \<open>p\<close> for \<open>Some p\<close>.
  The structure is in order (\<open>struct_ok\<close>) when \<open>L\<close> is finite, parents are in \<open>L\<close>,
  the forest has no cycle, the parent fields are those of \<open>G\<close>, every non-empty set
  of siblings is a ring, the child pointer of an entry is one of its children (and
  \<open>nil\<close> only if it has none), and the degree is the number of children. The set \<open>X\<close>
  is empty between calls; inside \<open>cutNode\<close> it holds the entries already cut whose
  parent field is still to be cleared.
\<close>

definition sibs :: "addr set \<Rightarrow> (addr \<Rightarrow> addr option) \<Rightarrow> addr option \<Rightarrow> addr set" where
  "sibs L G po = {a \<in> L. G a = po}"

definition closed_G :: "addr set \<Rightarrow> (addr \<Rightarrow> addr option) \<Rightarrow> bool" where
  "closed_G L G = (\<forall>a\<in>L. \<forall>p. G a = Some p \<longrightarrow> p \<in> L)"

definition rel_G :: "addr set \<Rightarrow> (addr \<Rightarrow> addr option) \<Rightarrow> (addr \<times> addr) set" where
  "rel_G L G = {(p, a). a \<in> L \<and> G a = Some p}"

definition parents_ok :: "addr set \<Rightarrow> 'e store \<Rightarrow> addr set \<Rightarrow> (addr \<Rightarrow> addr option) \<Rightarrow> bool" where
  "parents_ok X s L G = ((\<forall>a\<in>L. a \<notin> X \<longrightarrow> parent (s a) = G a) \<and> (\<forall>a\<in>X. G a = None))"

definition rings_ok :: "'e store \<Rightarrow> addr set \<Rightarrow> (addr \<Rightarrow> addr option) \<Rightarrow> bool" where
  "rings_ok s L G = (\<forall>po. sibs L G po \<noteq> {} \<longrightarrow> is_ring s (sibs L G po))"

definition childs_ok :: "'e store \<Rightarrow> addr set \<Rightarrow> (addr \<Rightarrow> addr option) \<Rightarrow> bool" where
  "childs_ok s L G =
     (\<forall>p\<in>L. case child (s p) of None \<Rightarrow> sibs L G (Some p) = {} | Some c \<Rightarrow> c \<in> sibs L G (Some p))"

definition degrees_ok :: "'e store \<Rightarrow> addr set \<Rightarrow> (addr \<Rightarrow> addr option) \<Rightarrow> bool" where
  "degrees_ok s L G = (\<forall>p\<in>L. degree (s p) = int (card (sibs L G (Some p))))"

definition struct_ok :: "addr set \<Rightarrow> 'e store \<Rightarrow> addr set \<Rightarrow> (addr \<Rightarrow> addr option) \<Rightarrow> bool" where
  "struct_ok X s L G =
     (finite L \<and> closed_G L G \<and> wf (rel_G L G) \<and> parents_ok X s L G \<and> rings_ok s L G
      \<and> childs_ok s L G \<and> degrees_ok s L G)"

text \<open>
  The priorities are in order (\<open>prio_ok\<close>) when they are numbers and no child has a
  smaller priority than its parent; \<open>min_ok\<close>: the \<open>min\<close> pointer is \<open>nil\<close> in an
  empty heap and otherwise points at a root that no root undercuts. \<open>hinv s f\<close>,
  the invariant of the heap \<open>f\<close> in the store \<open>s\<close>: all this holds for some \<open>L\<close> and
  \<open>G\<close>, and \<open>size\<close> is the number of entries. Every heap of a world that the public
  operations reach satisfies it (\<open>reach_hinv\<close> below), and then \<open>L\<close> is the set
  \<open>entries s f\<close>.
\<close>

definition prio_ok :: "'e store \<Rightarrow> addr set \<Rightarrow> (addr \<Rightarrow> addr option) \<Rightarrow> bool" where
  "prio_ok s L G =
     ((\<forall>a\<in>L. Priority (s a) \<noteq> NaN)
      \<and> (\<forall>a\<in>L. \<forall>p. G a = Some p \<longrightarrow> le64 (Priority (s p)) (Priority (s a))))"

definition min_ok :: "'e store \<Rightarrow> FibHeap \<Rightarrow> addr set \<Rightarrow> (addr \<Rightarrow> addr option) \<Rightarrow> bool" where
  "min_ok s f L G =
     (case min_entry f of
        None \<Rightarrow> sibs L G None = {}
      | Some m \<Rightarrow> m \<in> L \<and> G m = None
                 \<and> (\<forall>r\<in>L. G r = None \<longrightarrow> le64 (Priority (s m)) (Priority (s r))))"

definition heap_ok :: "'e store \<Rightarrow> FibHeap \<Rightarrow> addr set \<Rightarrow> (addr \<Rightarrow> addr option) \<Rightarrow> bool" where
  "heap_ok s f L G =
     (struct_ok {} s L G \<and> prio_ok s L G \<and> min_ok s f L G \<and> size_count f = int (card L))"

definition hinv :: "'e store \<Rightarrow> FibHeap \<Rightarrow> bool" where
  "hinv s f = (\<exists>L G. heap_ok s f L G)"

text \<open>
  The invariant of a world: every heap satisfies \<open>hinv\<close>, its entries are allocated,
  and no entry belongs to two heaps.
\<close>

definition winv :: "'e world \<Rightarrow> bool" where
  "winv w =
     ((\<forall>i<length (heaps w). hinv (mem w) (heaps w ! i)
          \<and> entries (mem w) (heaps w ! i) \<subseteq> {..<nalloc w})
      \<and> (\<forall>i<length (heaps w). \<forall>j<length (heaps w). i \<noteq> j \<longrightarrow>
            entries (mem w) (heaps w ! i) \<inter> entries (mem w) (heaps w ! j) = {}))"

subsection \<open>The forests after an operation\<close>

text \<open>
  The forest of the merged heap, the forest after the extraction of the root \<open>m\<close>
  (its children become roots), and the ancestors of an entry, itself included.
\<close>

definition join_G :: "addr set \<Rightarrow> (addr \<Rightarrow> addr option) \<Rightarrow> (addr \<Rightarrow> addr option) \<Rightarrow> addr \<Rightarrow> addr option" where
  "join_G LA GA GB = (\<lambda>x. if x \<in> LA then GA x else GB x)"

definition drop_G :: "(addr \<Rightarrow> addr option) \<Rightarrow> addr \<Rightarrow> addr \<Rightarrow> addr option" where
  "drop_G G m = (\<lambda>x. if G x = Some m then None else G x)"

definition anc :: "addr set \<Rightarrow> (addr \<Rightarrow> addr option) \<Rightarrow> addr \<Rightarrow> addr set" where
  "anc L G e = {a. (a, e) \<in> (rel_G L G)\<^sup>*}"

subsection \<open>Loop invariants and postconditions\<close>

text \<open>
  \<open>extracted\<close> is the part of \<open>DequeueMin\<close> before the consolidation. \<open>tabset T\<close>
  are the entries in the table of the consolidation, and \<open>tab_ok\<close> says that slot
  \<open>d\<close> holds a root of degree \<open>d\<close>. \<open>ll_post\<close>, \<open>cons_inv\<close> and \<open>cons_post\<close> are the
  postcondition of the inner loop, the invariant of the outer loop and its
  postcondition; \<open>deq_post\<close>, \<open>cut_post\<close> and \<open>dk_post\<close> are the postconditions of
  \<open>DequeueMin\<close>, \<open>cutNode\<close> and \<open>decreaseKeyUnchecked\<close>.
\<close>

definition extracted :: "nat \<Rightarrow> 'e store \<Rightarrow> FibHeap \<Rightarrow> addr \<Rightarrow> panic + ('e store \<times> addr option)" where
  "extracted fuel s f1 m =
     (let u = unlink_min s f1 m in
      case clear_children fuel (fst u) m of
        Inl e \<Rightarrow> Inl e
      | Inr s3 \<Rightarrow> Inr (mergeLists s3 (min_entry (snd u)) (child (s3 m))))"

definition tabset :: "addr option list \<Rightarrow> addr set" where
  "tabset T = {r. Some r \<in> set T}"

definition tab_ok :: "'e store \<Rightarrow> addr set \<Rightarrow> (addr \<Rightarrow> addr option) \<Rightarrow> addr option list \<Rightarrow> bool" where
  "tab_ok s L G T = (\<forall>d<length T. \<forall>r. T ! d = Some r \<longrightarrow> r \<in> L \<and> G r = None \<and> degree (s r) = int d)"

definition ll_post :: "'e store \<Rightarrow> addr set \<Rightarrow> (addr \<Rightarrow> addr option) \<Rightarrow> addr option list \<Rightarrow> addr
    \<Rightarrow> 'e store \<Rightarrow> addr option list \<Rightarrow> addr \<Rightarrow> (addr \<Rightarrow> addr option) \<Rightarrow> bool" where
  "ll_post s L G T cur s' T' w G' =
     (struct_ok {} s' L G' \<and> prio_ok s' L G' \<and> tab_ok s' L G' T'
      \<and> w \<in> tabset T' \<and> tabset T' \<subseteq> insert w (tabset T) \<and> w \<in> insert cur (tabset T)
      \<and> (\<forall>x\<in>insert cur (tabset T). x \<in> tabset T' \<or> le64 (Priority (s w)) (Priority (s x)))
      \<and> (\<forall>x\<in>L. G x = None \<longrightarrow> x \<notin> insert cur (tabset T) \<longrightarrow> G' x = None)
      \<and> (\<forall>x\<in>L. G' x = None \<longrightarrow> G x = None)
      \<and> (\<forall>x\<in>insert cur (tabset T). G' x = None \<longrightarrow> x \<in> tabset T')
      \<and> (\<forall>x. Priority (s' x) = Priority (s x) \<and> Element (s' x) = Element (s x))
      \<and> (\<forall>x. x \<notin> L \<longrightarrow> s' x = s x))"

definition cons_inv :: "'e store \<Rightarrow> addr set \<Rightarrow> (addr \<Rightarrow> addr option) \<Rightarrow> FibHeap
    \<Rightarrow> addr option list \<Rightarrow> addr list \<Rightarrow> bool" where
  "cons_inv s L G f T todo =
     (struct_ok {} s L G \<and> prio_ok s L G \<and> tab_ok s L G T \<and> distinct todo
      \<and> (\<forall>r\<in>set todo. r \<in> L \<and> G r = None \<and> r \<notin> tabset T)
      \<and> (\<forall>r\<in>L. G r = None \<longrightarrow> r \<in> set todo \<or> r \<in> tabset T)
      \<and> (\<exists>m. min_entry f = Some m \<and> m \<in> L
             \<and> (\<forall>r\<in>tabset T. le64 (Priority (s m)) (Priority (s r)))
             \<and> (m \<in> tabset T \<or> (tabset T = {} \<and> todo \<noteq> [] \<and> m = hd todo))))"

definition cons_post :: "'e store \<Rightarrow> addr set \<Rightarrow> FibHeap \<Rightarrow> 'e store \<Rightarrow> FibHeap
    \<Rightarrow> addr option list \<Rightarrow> (addr \<Rightarrow> addr option) \<Rightarrow> bool" where
  "cons_post s L f s' f' T' G' =
     (struct_ok {} s' L G' \<and> prio_ok s' L G' \<and> tab_ok s' L G' T'
      \<and> (\<forall>r\<in>L. G' r = None \<longrightarrow> r \<in> tabset T')
      \<and> (\<exists>m. min_entry f' = Some m \<and> m \<in> tabset T'
             \<and> (\<forall>r\<in>tabset T'. le64 (Priority (s' m)) (Priority (s' r))))
      \<and> size_count f' = size_count f
      \<and> (\<forall>x. Priority (s' x) = Priority (s x) \<and> Element (s' x) = Element (s x))
      \<and> (\<forall>x. x \<notin> L \<longrightarrow> s' x = s x))"

definition deq_post :: "'e store \<Rightarrow> addr set \<Rightarrow> addr \<Rightarrow> 'e store \<Rightarrow> FibHeap
    \<Rightarrow> addr option list \<Rightarrow> (addr \<Rightarrow> addr option) \<Rightarrow> bool" where
  "deq_post s L m s' f' T' G' =
     (heap_ok s' f' (L - {m}) G'
      \<and> (L - {m} \<noteq> {} \<longrightarrow> tab_ok s' (L - {m}) G' T'
            \<and> (\<forall>r\<in>L - {m}. G' r = None \<longrightarrow> r \<in> tabset T'))
      \<and> (\<forall>x. Priority (s' x) = Priority (s x) \<and> Element (s' x) = Element (s x))
      \<and> (\<forall>x. x \<notin> L - {m} \<longrightarrow> s' x = s x)
      \<and> (\<forall>x. parent (s' x) = None \<and> marked (s' x) \<longrightarrow>
             marked (s x) \<and> (parent (s x) = None \<or> parent (s x) = Some m)))"

definition cut_post :: "addr set \<Rightarrow> 'e store \<Rightarrow> addr set \<Rightarrow> (addr \<Rightarrow> addr option) \<Rightarrow> addr
    \<Rightarrow> 'e store \<Rightarrow> FibHeap \<Rightarrow> (addr \<Rightarrow> addr option) \<Rightarrow> bool" where
  "cut_post X s L G e s' f' G' =
     (struct_ok X s' L G' \<and> G' e = None \<and> (\<forall>x\<in>L. G' x = G x \<or> G' x = None)
      \<and> min_ok s' f' L G'
      \<and> (\<forall>x. Priority (s' x) = Priority (s x) \<and> Element (s' x) = Element (s x))
      \<and> (\<forall>x. x \<notin> L \<longrightarrow> s' x = s x)
      \<and> (\<forall>x. marked (s' x) \<longrightarrow> x \<noteq> e \<and> (marked (s x) \<or> x \<in> anc L G e))
      \<and> (\<forall>x\<in>L. marked (s' x) \<and> G' x = None \<longrightarrow> G x = None))"

definition dk_post :: "'e store \<Rightarrow> FibHeap \<Rightarrow> addr set \<Rightarrow> addr \<Rightarrow> float64
    \<Rightarrow> 'e store \<Rightarrow> FibHeap \<Rightarrow> (addr \<Rightarrow> addr option) \<Rightarrow> bool" where
  "dk_post s f L e p s' f' G' =
     (heap_ok s' f' L G'
      \<and> (\<forall>x. Priority (s' x) = (if x = e then p else Priority (s x)))
      \<and> (\<forall>x. Element (s' x) = Element (s x))
      \<and> (\<forall>x. x \<notin> L \<longrightarrow> s' x = s x)
      \<and> ((\<forall>x\<in>L. le64 p (Priority (s x))) \<longrightarrow> min_entry f' = Some e)
      \<and> (\<forall>x. marked (s' x) \<longrightarrow> marked (s x) \<or> ancestor s x e)
      \<and> (\<forall>x. marked (s' x) \<and> parent (s' x) = None \<longrightarrow> parent (s x) = None)
      \<and> (\<forall>x. parent (s' x) = parent (s x) \<or> parent (s' x) = None))"

section \<open>Reading a field after an assignment\<close>

lemma set_degree_read [simp]:
  "degree (set_degree s a v b) = (if b = a then v else degree (s b))"
  "marked (set_degree s a v b) = marked (s b)"
  "next (set_degree s a v b) = next (s b)"
  "prev (set_degree s a v b) = prev (s b)"
  "parent (set_degree s a v b) = parent (s b)"
  "child (set_degree s a v b) = child (s b)"
  "Element (set_degree s a v b) = Element (s b)"
  "Priority (set_degree s a v b) = Priority (s b)"
  by (simp_all add: set_degree_def)

lemma set_marked_read [simp]:
  "degree (set_marked s a v b) = degree (s b)"
  "marked (set_marked s a v b) = (if b = a then v else marked (s b))"
  "next (set_marked s a v b) = next (s b)"
  "prev (set_marked s a v b) = prev (s b)"
  "parent (set_marked s a v b) = parent (s b)"
  "child (set_marked s a v b) = child (s b)"
  "Element (set_marked s a v b) = Element (s b)"
  "Priority (set_marked s a v b) = Priority (s b)"
  by (simp_all add: set_marked_def)

lemma set_next_read [simp]:
  "degree (set_next s a v b) = degree (s b)"
  "marked (set_next s a v b) = marked (s b)"
  "next (set_next s a v b) = (if b = a then v else next (s b))"
  "prev (set_next s a v b) = prev (s b)"
  "parent (set_next s a v b) = parent (s b)"
  "child (set_next s a v b) = child (s b)"
  "Element (set_next s a v b) = Element (s b)"
  "Priority (set_next s a v b) = Priority (s b)"
  by (simp_all add: set_next_def)

lemma set_prev_read [simp]:
  "degree (set_prev s a v b) = degree (s b)"
  "marked (set_prev s a v b) = marked (s b)"
  "next (set_prev s a v b) = next (s b)"
  "prev (set_prev s a v b) = (if b = a then v else prev (s b))"
  "parent (set_prev s a v b) = parent (s b)"
  "child (set_prev s a v b) = child (s b)"
  "Element (set_prev s a v b) = Element (s b)"
  "Priority (set_prev s a v b) = Priority (s b)"
  by (simp_all add: set_prev_def)

lemma set_parent_read [simp]:
  "degree (set_parent s a v b) = degree (s b)"
  "marked (set_parent s a v b) = marked (s b)"
  "next (set_parent s a v b) = next (s b)"
  "prev (set_parent s a v b) = prev (s b)"
  "parent (set_parent s a v b) = (if b = a then v else parent (s b))"
  "child (set_parent s a v b) = child (s b)"
  "Element (set_parent s a v b) = Element (s b)"
  "Priority (set_parent s a v b) = Priority (s b)"
  by (simp_all add: set_parent_def)

lemma set_child_read [simp]:
  "degree (set_child s a v b) = degree (s b)"
  "marked (set_child s a v b) = marked (s b)"
  "next (set_child s a v b) = next (s b)"
  "prev (set_child s a v b) = prev (s b)"
  "parent (set_child s a v b) = parent (s b)"
  "child (set_child s a v b) = (if b = a then v else child (s b))"
  "Element (set_child s a v b) = Element (s b)"
  "Priority (set_child s a v b) = Priority (s b)"
  by (simp_all add: set_child_def)

lemma set_Priority_read [simp]:
  "degree (set_Priority s a v b) = degree (s b)"
  "marked (set_Priority s a v b) = marked (s b)"
  "next (set_Priority s a v b) = next (s b)"
  "prev (set_Priority s a v b) = prev (s b)"
  "parent (set_Priority s a v b) = parent (s b)"
  "child (set_Priority s a v b) = child (s b)"
  "Element (set_Priority s a v b) = Element (s b)"
  "Priority (set_Priority s a v b) = (if b = a then v else Priority (s b))"
  by (simp_all add: set_Priority_def)

lemma newEntry_read [simp]:
  "degree (newEntry s a el p b) = (if b = a then 0 else degree (s b))"
  "marked (newEntry s a el p b) = (if b = a then False else marked (s b))"
  "next (newEntry s a el p b) = (if b = a then a else next (s b))"
  "prev (newEntry s a el p b) = (if b = a then a else prev (s b))"
  "parent (newEntry s a el p b) = (if b = a then None else parent (s b))"
  "child (newEntry s a el p b) = (if b = a then None else child (s b))"
  "Element (newEntry s a el p b) = (if b = a then el else Element (s b))"
  "Priority (newEntry s a el p b) = (if b = a then p else Priority (s b))"
  by (simp_all add: newEntry_def)

lemma mergeLists_keeps [simp]:
  "degree (fst (mergeLists s x y) b) = degree (s b)"
  "marked (fst (mergeLists s x y) b) = marked (s b)"
  "parent (fst (mergeLists s x y) b) = parent (s b)"
  "child (fst (mergeLists s x y) b) = child (s b)"
  "Element (fst (mergeLists s x y) b) = Element (s b)"
  "Priority (fst (mergeLists s x y) b) = Priority (s b)"
  by (simp_all add: mergeLists_def Let_def split: option.splits)

section \<open>The marks\<close>

text \<open>
  Only \<open>cutNode\<close> sets a mark: every other operation leaves the marks as they are
  or clears them.
\<close>

lemma link_marked: "marked (link s mn mx a) \<Longrightarrow> marked (s a)"
  by (simp add: link_def Let_def split: if_splits)

lemma link_loop_marked:
  "link_loop s t c = Inr (s', t', c') \<Longrightarrow> marked (s' a) \<Longrightarrow> marked (s a)"
proof (induction s t c rule: link_loop.induct)
  case (1 s t c)
  from "1.prems" show ?case
    apply (subst (asm) link_loop.simps)
    apply (auto split: if_splits option.splits dest!: "1.IH" dest: link_marked simp del: link_loop.simps grow.simps)
    done
qed

lemma consolidate_marked:
  "consolidate s f t vs = Inr (s', f', t') \<Longrightarrow> marked (s' a) \<Longrightarrow> marked (s a)"
proof (induction vs arbitrary: s f t)
  case Nil
  then show ?case by simp
next
  case (Cons v vs)
  from Cons.prems show ?case
    by (auto split: sum.splits option.splits prod.splits dest!: Cons.IH dest: link_loop_marked simp del: link_loop.simps)
qed

lemma clear_parents_marked:
  "clear_parents n s m c = Inr s' \<Longrightarrow> marked (s' a) = marked (s a)"
  by (induction n s m c rule: clear_parents.induct) (auto simp: Let_def split: if_splits)

lemma unlink_min_marked: "marked (fst (unlink_min s f m) a) = marked (s a)"
  by (simp add: unlink_min_def Let_def)

lemma DequeueMin_table_marked:
  "DequeueMin_table fuel s f = Inr (s', f', r, t) \<Longrightarrow> marked (s' a) \<Longrightarrow> marked (s a)"
  unfolding DequeueMin_table_def Let_def
  by (auto split: if_splits option.splits sum.splits prod.splits
      dest!: consolidate_marked simp: clear_parents_marked unlink_min_marked clear_children_def)

lemma DequeueMin_marked:
  "DequeueMin fuel s f = Inr (s', f', r) \<Longrightarrow> marked (s' a) \<Longrightarrow> marked (s a)"
  by (auto simp: DequeueMin_def split: sum.splits dest: DequeueMin_table_marked)

lemma Enqueue_marked:
  "Enqueue s f n el p = (s', f', e) \<Longrightarrow> marked (s' a) \<Longrightarrow> a \<noteq> n \<and> marked (s a)"
  by (auto simp: Enqueue_def Let_def split: if_splits)

lemma MergeFibHeap_marked:
  "MergeFibHeap s one two = (s', r, o', t') \<Longrightarrow> marked (s' a) = marked (s a)"
  by (auto simp: MergeFibHeap_def Let_def)

section \<open>The concrete runs are runs of the interface\<close>

lemma isl_case_Inr: "\<not> isl r \<Longrightarrow> r = Inr (case r of Inr w \<Rightarrow> w | Inl e \<Rightarrow> d)"
  by (cases r) simp_all

lemma reach_step: "reach w \<Longrightarrow> valid_call w c \<Longrightarrow> exec fuel w c = Inr w' \<Longrightarrow> reach w'"
  unfolding reach_def by (blast intro: later_step)

lemma run0_reach: "reach run0"
  unfolding reach_def run0_def by (blast intro: later_refl)

lemma run3_reach: "reach run3"
proof -
  have 0: "reach (w_new run0)"
    by (rule reach_step[OF run0_reach, where c = NewHeap and fuel = 0]) simp_all
  have 1: "reach (w_enqueue (w_new run0) 0 () (Fin 1))"
    by (rule reach_step[OF 0, where c = "CallEnqueue 0 () (Fin 1)" and fuel = 0])
       (simp_all add: w_new_def run0_def)
  have l1: "length (heaps (w_enqueue (w_new run0) 0 () (Fin 1))) = 1"
    by code_simp
  have 2: "reach (w_enqueue (w_enqueue (w_new run0) 0 () (Fin 1)) 0 () (Fin 2))"
    by (rule reach_step[OF 1, where c = "CallEnqueue 0 () (Fin 2)" and fuel = 0])
       (simp_all add: l1)
  have l2: "length (heaps (w_enqueue (w_enqueue (w_new run0) 0 () (Fin 1)) 0 () (Fin 2))) = 1"
    by code_simp
  show ?thesis
    unfolding run3_def
    by (rule reach_step[OF 2, where c = "CallEnqueue 0 () (Fin 3)" and fuel = 0])
       (simp_all add: l2)
qed

lemma run4_step: "valid_call run3 (CallDequeueMin 0) \<and> exec 3 run3 (CallDequeueMin 0) = Inr run4"
proof -
  have l: "length (heaps run3) = 1" by code_simp
  have "\<not> isl (w_dequeue 3 run3 0)" by code_simp
  then have "w_dequeue 3 run3 0 = Inr run4"
    unfolding run4_def by (rule isl_case_Inr)
  with l show ?thesis by simp
qed

lemma run4_reach: "reach run4"
  using reach_step[OF run3_reach] run4_step by blast

lemma run5_step:
  "valid_call run4 (CallDecreaseKey 0 2 (Fin 0)) \<and> exec 3 run4 (CallDecreaseKey 0 2 (Fin 0)) = Inr run5"
proof -
  have l: "length (heaps run4) = 1" by code_simp
  have m: "min_entry (heaps run4 ! 0) = Some 1" "child (mem run4 1) = Some 2" by code_simp+
  have e: "2 \<in> entries (mem run4) (heaps run4 ! 0)"
    by (rule entries_child[OF entries_min], rule m, rule m)
  have "\<not> isl (w_decrease 3 run4 0 2 (Fin 0))" by code_simp
  then have "w_decrease 3 run4 0 2 (Fin 0) = Inr run5"
    unfolding run5_def by (rule isl_case_Inr)
  with l e show ?thesis by simp
qed

lemma run5_reach: "reach run5"
  using reach_step[OF run4_reach] run5_step by blast

section \<open>Chains and rings\<close>

lemma chain_append [simp]:
  "chain s a (xs @ y # ys) z = (chain s a xs y \<and> chain s y ys z)"
  by (induction xs arbitrary: a) auto

lemma chain_frame:
  assumes "\<forall>x\<in>set (a # xs). next (s' x) = next (s x)"
    and "\<forall>x\<in>set (xs @ [z]). prev (s' x) = prev (s x)"
  shows "chain s' a xs z = chain s a xs z"
  using assms by (induction xs arbitrary: a) auto

lemma chain_next: "chain s a xs z \<Longrightarrow> next (s a) = hd (xs @ [z])"
  by (cases xs) auto

lemma chain_prev: "chain s a xs z \<Longrightarrow> prev (s z) = last (a # xs)"
  by (induction xs arbitrary: a) auto

lemma chain_next_in: "chain s a xs z \<Longrightarrow> x \<in> set (a # xs) \<Longrightarrow> next (s x) \<in> set (xs @ [z])"
  by (induction xs arbitrary: a) auto

lemma chain_prev_in: "chain s a xs z \<Longrightarrow> x \<in> set (xs @ [z]) \<Longrightarrow> prev (s x) \<in> set (a # xs)"
  by (induction xs arbitrary: a) auto

lemma ring_Cons: "ring s (a # as) = (distinct (a # as) \<and> chain s a as a)"
  by (simp add: ring_def)

lemma ring_Nil [simp]: "\<not> ring s []"
  by (simp add: ring_def)

lemma ring_single: "ring s [a] = (next (s a) = a \<and> prev (s a) = a)"
  by (simp add: ring_Cons)

lemma ring_rotate1: "ring s (a # as) \<Longrightarrow> ring s (as @ [a])"
  by (cases as) (auto simp: ring_Cons)

lemma ring_swap: "ring s (ys @ zs) \<Longrightarrow> ring s (zs @ ys)"
proof (induction ys arbitrary: zs rule: rev_induct)
  case Nil
  then show ?case by simp
next
  case (snoc y ys)
  then have "ring s (ys @ (y # zs))" by simp
  then have "ring s ((y # zs) @ ys)" by (rule snoc.IH)
  then have "ring s ((zs @ ys) @ [y])" using ring_rotate1[of s y "zs @ ys"] by simp
  then show ?case by simp
qed

lemma ring_from:
  assumes "ring s xs" and "a \<in> set xs"
  shows "\<exists>as. ring s (a # as) \<and> set (a # as) = set xs \<and> length (a # as) = length xs"
proof -
  from assms(2) obtain ys zs where xs: "xs = ys @ a # zs" by (auto simp: in_set_conv_decomp)
  with assms(1) have "ring s ((a # zs) @ ys)" using ring_swap[of s ys "a # zs"] by simp
  then show ?thesis using xs by (intro exI[of _ "zs @ ys"]) auto
qed

lemma is_ring_from:
  "is_ring s A \<Longrightarrow> a \<in> A \<Longrightarrow> \<exists>as. ring s (a # as) \<and> set (a # as) = A"
  unfolding is_ring_def using ring_from by blast

lemma is_ringI: "ring s xs \<Longrightarrow> set xs = A \<Longrightarrow> is_ring s A"
  unfolding is_ring_def by blast

lemma is_ring_finite: "is_ring s A \<Longrightarrow> finite A"
  unfolding is_ring_def by auto

lemma is_ring_nonempty: "is_ring s A \<Longrightarrow> A \<noteq> {}"
  unfolding is_ring_def by (metis ring_Nil set_empty)

lemma ring_next_self: "ring s (a # as) \<Longrightarrow> (next (s a) = a) = (as = [])"
  by (cases as) (auto simp: ring_Cons)

lemma ring_prev_self: "ring s (a # as) \<Longrightarrow> (prev (s a) = a) = (as = [])"
proof -
  assume r: "ring s (a # as)"
  then have "prev (s a) = last (a # as)" by (auto simp: ring_Cons dest: chain_prev)
  moreover have "as \<noteq> [] \<Longrightarrow> last as \<in> set as" by simp
  ultimately show ?thesis using r by (auto simp: ring_Cons)
qed

lemma ring_frame:
  assumes "ring s xs"
    and "\<forall>x\<in>set xs. next (s' x) = next (s x) \<and> prev (s' x) = prev (s x)"
  shows "ring s' xs"
proof (cases xs)
  case Nil
  with assms show ?thesis by simp
next
  case (Cons a as)
  have "chain s' a as a = chain s a as a"
    by (rule chain_frame) (use assms(2) Cons in auto)
  with assms(1) Cons show ?thesis by (simp add: ring_Cons)
qed

lemma is_ring_frame:
  "is_ring s A \<Longrightarrow> \<forall>x\<in>A. next (s' x) = next (s x) \<and> prev (s' x) = prev (s x) \<Longrightarrow> is_ring s' A"
  unfolding is_ring_def using ring_frame by blast

lemma is_ring_next_in: "is_ring s A \<Longrightarrow> a \<in> A \<Longrightarrow> next (s a) \<in> A"
proof -
  assume "is_ring s A" "a \<in> A"
  then obtain as where r: "ring s (a # as)" "set (a # as) = A" using is_ring_from by blast
  then have "next (s a) = hd (as @ [a])" by (auto simp: ring_Cons dest: chain_next)
  then show ?thesis using r(2) by (cases as) auto
qed

lemma is_ring_prev_in: "is_ring s A \<Longrightarrow> a \<in> A \<Longrightarrow> prev (s a) \<in> A"
proof -
  assume "is_ring s A" "a \<in> A"
  then obtain as where r: "ring s (a # as)" "set (a # as) = A" using is_ring_from by blast
  then have "prev (s a) = last (a # as)" by (auto simp: ring_Cons dest: chain_prev)
  then show ?thesis using r(2) last_in_set[of "a # as"] by auto
qed

lemma is_ring_next_self: "is_ring s A \<Longrightarrow> a \<in> A \<Longrightarrow> (next (s a) = a) = (A = {a})"
proof -
  assume "is_ring s A" "a \<in> A"
  then obtain as where r: "ring s (a # as)" "set (a # as) = A" using is_ring_from by blast
  from ring_next_self[OF r(1)] r show ?thesis
    by (cases as) (auto simp: ring_Cons)
qed

lemma is_ring_single: "next (s a) = a \<Longrightarrow> prev (s a) = a \<Longrightarrow> is_ring s {a}"
  by (rule is_ringI[of s "[a]"]) (simp_all add: ring_single)

section \<open>Splicing rings\<close>

lemma splice_out_read [simp]:
  "next (splice_out s a x) = (if x = prev (s a) then next (s a) else next (s x))"
  "prev (splice_out s a x) = (if x = next (s a) then prev (s a) else prev (s x))"
  "degree (splice_out s a x) = degree (s x)"
  "marked (splice_out s a x) = marked (s x)"
  "parent (splice_out s a x) = parent (s x)"
  "child (splice_out s a x) = child (s x)"
  "Element (splice_out s a x) = Element (s x)"
  "Priority (splice_out s a x) = Priority (s x)"
  by (simp_all add: splice_out_def)

lemma ring_splice_out:
  assumes "ring s (a # as)" and "as \<noteq> []"
  shows "ring (splice_out s a) as"
proof -
  from assms(2) obtain b bs where as: "as = b # bs" by (cases as) auto
  from assms(1) as have d: "distinct (a # b # bs)" and n: "next (s a) = b"
    and c: "chain s b bs a"
    by (auto simp: ring_Cons)
  from assms(1) as have p: "prev (s a) = last (b # bs)"
    by (auto simp: ring_Cons dest: chain_prev)
  show ?thesis
  proof (cases bs rule: rev_cases)
    case Nil
    with p n d show ?thesis by (simp add: as ring_Cons)
  next
    case (snoc cs l)
    with c have c1: "chain s b cs l" by simp
    have pl: "prev (s a) = l" using p snoc by simp
    have "chain (splice_out s a) b cs l = chain s b cs l"
      by (rule chain_frame) (use d snoc n pl in auto)
    with c1 have "chain (splice_out s a) b cs l" by simp
    then have "chain (splice_out s a) b (cs @ [l]) b"
      using n pl d snoc by simp
    with d show ?thesis by (simp add: as snoc ring_Cons)
  qed
qed

lemma is_ring_splice_out:
  assumes "is_ring s A" and "a \<in> A" and "A \<noteq> {a}"
  shows "is_ring (splice_out s a) (A - {a})"
proof -
  from is_ring_from[OF assms(1,2)] obtain as where r: "ring s (a # as)" "set (a # as) = A"
    by blast
  with assms(3) have ne: "as \<noteq> []" by auto
  from r have "a \<notin> set as" by (simp add: ring_Cons)
  with r(2) have "set as = A - {a}" by auto
  with ring_splice_out[OF r(1) ne] show ?thesis by (auto intro: is_ringI)
qed

lemma mergeLists_None [simp]:
  "mergeLists s None y = (s, y)"
  "mergeLists s x None = (s, x)"
  by (simp_all add: mergeLists_def split: option.splits)

lemma mergeLists_read [simp]:
  "next (fst (mergeLists s (Some a) (Some b)) x) =
     (if x = b then next (s a) else if x = a then next (s b) else next (s x))"
  "prev (fst (mergeLists s (Some a) (Some b)) x) =
     (if x = next (s a) then b else if x = next (s b) then a else prev (s x))"
  by (simp_all add: mergeLists_def Let_def)

lemma mergeLists_snd:
  "snd (mergeLists s (Some a) (Some b)) =
     (if lt64 (Priority (s a)) (Priority (s b)) then Some a else Some b)"
  by (simp add: mergeLists_def Let_def)

lemma chain_rehead:
  assumes "chain s a xs z"
    and "next (s' a') = hd (xs @ [z])"
    and "prev (s' (hd (xs @ [z]))) = a'"
    and "\<forall>x\<in>set xs. next (s' x) = next (s x)"
    and "\<forall>x\<in>set (tl (xs @ [z])). prev (s' x) = prev (s x)"
  shows "chain s' a' xs z"
proof (cases xs)
  case Nil
  with assms show ?thesis by simp
next
  case (Cons x xs')
  have "chain s' x xs' z = chain s x xs' z"
    by (rule chain_frame) (use assms(4,5) Cons in auto)
  with assms Cons show ?thesis by simp
qed

lemma ring_splice:
  assumes ra: "ring s (a # as)" and rb: "ring s (b # bs)"
    and dj: "set (a # as) \<inter> set (b # bs) = {}"
  shows "ring (fst (mergeLists s (Some a) (Some b))) (a # bs @ b # as)"
proof -
  let ?s = "fst (mergeLists s (Some a) (Some b))"
  from ra rb have da: "distinct (a # as)" and db: "distinct (b # bs)"
    and ca: "chain s a as a" and cb: "chain s b bs b"
    by (auto simp: ring_Cons)
  have na: "next (s a) = hd (as @ [a])" using ca by (rule chain_next)
  have nb: "next (s b) = hd (bs @ [b])" using cb by (rule chain_next)
  have na_in: "next (s a) \<in> set (a # as)" using na by (cases as) auto
  have nb_in: "next (s b) \<in> set (b # bs)" using nb by (cases bs) auto
  have ab: "a \<noteq> b" using dj by auto
  have nanb: "next (s a) \<noteq> next (s b)" using na_in nb_in dj by auto
  have tla: "\<And>x. x \<in> set (tl (as @ [a])) \<Longrightarrow> x \<noteq> hd (as @ [a]) \<and> x \<in> set (a # as)"
    using da by (cases as) auto
  have tlb: "\<And>x. x \<in> set (tl (bs @ [b])) \<Longrightarrow> x \<noteq> hd (bs @ [b]) \<and> x \<in> set (b # bs)"
    using db by (cases bs) auto
  have 1: "chain ?s b as a"
  proof (rule chain_rehead[OF ca])
    show "next (?s b) = hd (as @ [a])" using na by simp
    show "prev (?s (hd (as @ [a]))) = b" using na by simp
    show "\<forall>x\<in>set as. next (?s x) = next (s x)" using da dj by auto
    show "\<forall>x\<in>set (tl (as @ [a])). prev (?s x) = prev (s x)"
    proof
      fix x assume x: "x \<in> set (tl (as @ [a]))"
      from tla[OF x] have "x \<noteq> next (s a)" "x \<in> set (a # as)" using na by auto
      moreover from this nb_in dj have "x \<noteq> next (s b)" by auto
      ultimately show "prev (?s x) = prev (s x)" by simp
    qed
  qed
  have 2: "chain ?s a bs b"
  proof (rule chain_rehead[OF cb])
    show "next (?s a) = hd (bs @ [b])" using nb ab by simp
    show "prev (?s (hd (bs @ [b]))) = a" using nb nanb by simp
    show "\<forall>x\<in>set bs. next (?s x) = next (s x)" using db dj by auto
    show "\<forall>x\<in>set (tl (bs @ [b])). prev (?s x) = prev (s x)"
    proof
      fix x assume x: "x \<in> set (tl (bs @ [b]))"
      from tlb[OF x] have "x \<noteq> next (s b)" "x \<in> set (b # bs)" using nb by auto
      moreover from this na_in dj have "x \<noteq> next (s a)" by auto
      ultimately show "prev (?s x) = prev (s x)" by simp
    qed
  qed
  have "distinct (a # bs @ b # as)" using da db dj by auto
  with 1 2 show ?thesis by (simp add: ring_Cons)
qed

lemma is_ring_splice:
  assumes "is_ring s A" and "is_ring s B" and "A \<inter> B = {}" and "a \<in> A" and "b \<in> B"
  shows "is_ring (fst (mergeLists s (Some a) (Some b))) (A \<union> B)"
proof -
  from is_ring_from[OF assms(1,4)] obtain as where ra: "ring s (a # as)" "set (a # as) = A"
    by blast
  from is_ring_from[OF assms(2,5)] obtain bs where rb: "ring s (b # bs)" "set (b # bs) = B"
    by blast
  from ra rb assms(3) have "set (a # as) \<inter> set (b # bs) = {}" by simp
  from ring_splice[OF ra(1) rb(1) this] ra(2) rb(2) show ?thesis
    by (auto intro!: is_ringI)
qed

lemma mergeLists_frame:
  assumes "is_ring s A" and "is_ring s B" and "a \<in> A" and "b \<in> B" and "x \<notin> A \<union> B"
  shows "fst (mergeLists s (Some a) (Some b)) x = s x"
  using assms is_ring_next_in[of s A a] is_ring_next_in[of s B b]
  by (auto simp: mergeLists_def Let_def set_next_def set_prev_def)

section \<open>The forest and the entries of a heap\<close>

subsection \<open>Order facts\<close>

lemma le64_refl: "a \<noteq> NaN \<Longrightarrow> le64 a a"
  by (cases a) auto

lemma le64_trans: "le64 a b \<Longrightarrow> le64 b c \<Longrightarrow> le64 a c"
  by (cases a; cases b; cases c) auto

lemma le64_total: "a \<noteq> NaN \<Longrightarrow> b \<noteq> NaN \<Longrightarrow> le64 a b \<or> le64 b a"
  by (cases a; cases b) auto

lemma not_lt64: "a \<noteq> NaN \<Longrightarrow> b \<noteq> NaN \<Longrightarrow> (\<not> lt64 a b) = le64 b a"
  by (cases a; cases b) auto

lemma lt64_le64: "lt64 a b \<Longrightarrow> le64 a b"
  by (cases a; cases b) auto

lemma le64_NegInf: "a \<noteq> NaN \<Longrightarrow> le64 NegInf a"
  by (cases a) auto

lemma le64_not_NaN: "le64 a b \<Longrightarrow> a \<noteq> NaN \<and> b \<noteq> NaN"
  by (cases a; cases b) auto

subsection \<open>The forest\<close>

lemma sibs_iff [simp]: "a \<in> sibs L G po \<longleftrightarrow> a \<in> L \<and> G a = po"
  by (simp add: sibs_def)

lemma sibs_empty_iff [simp]: "sibs L G po = {} \<longleftrightarrow> (\<forall>a\<in>L. G a \<noteq> po)"
  by (auto simp: sibs_def)

lemma sibs_subset: "sibs L G po \<subseteq> L"
  by auto

lemma sibs_disjoint: "po \<noteq> po' \<Longrightarrow> sibs L G po \<inter> sibs L G po' = {}"
  by auto

lemma rel_G_iff [simp]: "(p, a) \<in> rel_G L G \<longleftrightarrow> a \<in> L \<and> G a = Some p"
  by (simp add: rel_G_def)

lemma struct_okD:
  assumes "struct_ok X s L G"
  shows "finite L" "closed_G L G" "wf (rel_G L G)" "parents_ok X s L G" "rings_ok s L G"
    "childs_ok s L G" "degrees_ok s L G"
  using assms by (simp_all add: struct_ok_def)

lemma root_above:
  assumes "wf (rel_G L G)" and "closed_G L G" and "a \<in> L"
  shows "\<exists>r\<in>L. G r = None \<and> (r, a) \<in> (rel_G L G)\<^sup>*"
  using assms(1,3)
proof (induction a rule: wf_induct_rule)
  case (less a)
  show ?case
  proof (cases "G a")
    case None
    with less.prems show ?thesis by blast
  next
    case (Some p)
    with less.prems assms(2) have p: "p \<in> L" "(p, a) \<in> rel_G L G"
      by (auto simp: closed_G_def)
    from less.IH[OF p(2) p(1)] obtain r where "r \<in> L" "G r = None" "(r, p) \<in> (rel_G L G)\<^sup>*"
      by blast
    with p(2) show ?thesis by (meson rtrancl.rtrancl_into_rtrancl)
  qed
qed

lemma no_roots_empty:
  assumes "wf (rel_G L G)" and "closed_G L G" and "sibs L G None = {}"
  shows "L = {}"
proof (rule ccontr)
  assume "L \<noteq> {}"
  then obtain a where "a \<in> L" by blast
  from root_above[OF assms(1,2) this] assms(3) show False by (auto simp: sibs_empty_iff)
qed

lemma rings_okD: "rings_ok s L G \<Longrightarrow> a \<in> L \<Longrightarrow> is_ring s (sibs L G (G a))"
  unfolding rings_ok_def by (auto simp: sibs_empty_iff)

lemma ring_next_closed:
  assumes "rings_ok s L G" and "a \<in> L"
  shows "next (s a) \<in> L \<and> G (next (s a)) = G a"
  using is_ring_next_in[OF rings_okD[OF assms], of a] assms(2) by simp

lemma ring_prev_closed:
  assumes "rings_ok s L G" and "a \<in> L"
  shows "prev (s a) \<in> L \<and> G (prev (s a)) = G a"
  using is_ring_prev_in[OF rings_okD[OF assms], of a] assms(2) by simp

lemma chain_reach:
  "chain s x xs z \<Longrightarrow> x \<in> E \<Longrightarrow> \<forall>y\<in>E. next (s y) \<in> E \<Longrightarrow> set xs \<subseteq> E"
proof (induction xs arbitrary: x)
  case Nil
  then show ?case by simp
next
  case (Cons y ys)
  from Cons.prems have "y \<in> E" "chain s y ys z" by auto
  with Cons.IH[of y] Cons.prems(3) show ?case by simp
qed

lemma is_ring_reach:
  assumes "is_ring s A" and "x \<in> A" and "x \<in> E" and "\<forall>y\<in>E. next (s y) \<in> E"
  shows "A \<subseteq> E"
proof -
  from is_ring_from[OF assms(1,2)] obtain xs where r: "ring s (x # xs)" "set (x # xs) = A"
    by blast
  then have "chain s x xs x" by (simp add: ring_Cons)
  from chain_reach[OF this assms(3,4)] r(2) assms(3) show ?thesis by auto
qed

lemma entries_subset:
  assumes "struct_ok {} s L G" and "min_ok s f L G"
  shows "entries s f \<subseteq> L"
proof
  fix a assume "a \<in> entries s f"
  then show "a \<in> L"
  proof (induction rule: entries.induct)
    case (entries_min m)
    with assms(2) show ?case by (simp add: min_ok_def)
  next
    case (entries_next a)
    with ring_next_closed[OF struct_okD(5)[OF assms(1)]] show ?case by blast
  next
    case (entries_child a c)
    with struct_okD(6)[OF assms(1)] show ?case
      by (auto simp: childs_ok_def split: option.splits)
  qed
qed

lemma entries_supset:
  assumes "struct_ok {} s L G" and "min_ok s f L G"
  shows "L \<subseteq> entries s f"
proof
  fix a assume "a \<in> L"
  with struct_okD(3)[OF assms(1)] show "a \<in> entries s f"
  proof (induction a rule: wf_induct_rule)
    case (less a)
    let ?A = "sibs L G (G a)"
    have ring: "is_ring s ?A" using rings_okD[OF struct_okD(5)[OF assms(1)] less.prems] .
    have cl: "\<forall>y\<in>entries s f. next (s y) \<in> entries s f" by (auto intro: entries_next)
    have "\<exists>x. x \<in> ?A \<and> x \<in> entries s f"
    proof (cases "G a")
      case None
      with less.prems have "sibs L G None \<noteq> {}" by (auto simp: sibs_empty_iff)
      with assms(2) obtain m where "min_entry f = Some m" "m \<in> L" "G m = None"
        by (auto simp: min_ok_def split: option.splits)
      with None show ?thesis by (auto intro: entries_min)
    next
      case (Some p)
      with less.prems struct_okD(2)[OF assms(1)] have p: "p \<in> L" "(p, a) \<in> rel_G L G"
        by (auto simp: closed_G_def)
      from less.IH[OF p(2) p(1)] have pe: "p \<in> entries s f" .
      from Some less.prems have "sibs L G (Some p) \<noteq> {}" by (auto simp: sibs_empty_iff)
      with struct_okD(6)[OF assms(1)] p(1) obtain c where "child (s p) = Some c" "c \<in> sibs L G (Some p)"
        by (auto simp: childs_ok_def split: option.splits)
      with pe Some show ?thesis by (auto intro: entries_child)
    qed
    then obtain x where x: "x \<in> ?A" "x \<in> entries s f" by blast
    from is_ring_reach[OF ring x cl] less.prems show ?case by auto
  qed
qed

lemma entries_eq: "heap_ok s f L G \<Longrightarrow> entries s f = L"
  using entries_subset entries_supset unfolding heap_ok_def by blast

section \<open>Enqueue keeps the invariant\<close>

lemma sibs_insert_root:
  "a \<notin> L \<Longrightarrow> sibs (insert a L) (G(a := None)) po = (if po = None then insert a (sibs L G None) else sibs L G po)"
  by (auto simp: sibs_def)

lemma not_parent_of_fresh: "closed_G L G \<Longrightarrow> a \<notin> L \<Longrightarrow> x \<in> L \<Longrightarrow> G x \<noteq> Some a"
  by (auto simp: closed_G_def)

lemma Enqueue_struct:
  assumes ok: "struct_ok {} s L G" and mo: "min_ok s f L G" and fresh: "a \<notin> L"
  shows "struct_ok {} (fst (Enqueue s f a el p)) (insert a L) (G(a := None))"
proof -
  let ?s1 = "newEntry s a el p"
  let ?s = "fst (mergeLists ?s1 (min_entry f) (Some a))"
  let ?L = "insert a L" and ?G = "G(a := None)"
  note d = struct_okD[OF ok]
  have s_eq: "fst (Enqueue s f a el p) = ?s" by (simp add: Enqueue_def Let_def)
  have nochild: "\<And>x. x \<in> L \<Longrightarrow> G x \<noteq> Some a" using not_parent_of_fresh[OF d(2) fresh] .
  have 1: "finite ?L" using d(1) by simp
  have 2: "closed_G ?L ?G" using d(2) by (auto simp: closed_G_def)
  have "rel_G ?L ?G = rel_G L G" using fresh by (auto simp: rel_G_def)
  then have 3: "wf (rel_G ?L ?G)" using d(3) by simp
  have 4: "parents_ok {} ?s ?L ?G" using d(4) fresh by (auto simp: parents_ok_def)
  have ring_a: "is_ring ?s1 {a}" by (rule is_ring_single) simp_all
  have old: "\<And>po. sibs L G po \<noteq> {} \<Longrightarrow> is_ring ?s1 (sibs L G po)"
  proof -
    fix po assume "sibs L G po \<noteq> {}"
    with d(5) have "is_ring s (sibs L G po)" by (simp add: rings_ok_def)
    then show "is_ring ?s1 (sibs L G po)"
      by (rule is_ring_frame) (use fresh in auto)
  qed
  have 5: "rings_ok ?s ?L ?G"
    unfolding rings_ok_def
  proof (intro allI impI)
    fix po assume ne: "sibs ?L ?G po \<noteq> {}"
    show "is_ring ?s (sibs ?L ?G po)"
    proof (cases "min_entry f")
      case None
      with mo have "sibs L G None = {}" by (simp add: min_ok_def)
      with no_roots_empty[OF d(3) d(2)] have "L = {}" by simp
      with ne have "sibs ?L ?G po = {a}" by (auto simp: sibs_def split: if_splits)
      with ring_a None show ?thesis by simp
    next
      case (Some m)
      with mo have m: "m \<in> sibs L G None" by (simp add: min_ok_def)
      then have rm: "is_ring ?s1 (sibs L G None)" using old by blast
      have dj: "sibs L G None \<inter> {a} = {}" using fresh by auto
      show ?thesis
      proof (cases po)
        case None
        from is_ring_splice[OF rm ring_a dj m, of a]
        show ?thesis using None Some fresh by (simp add: sibs_insert_root Un_commute)
      next
        case (Some q)
        with ne fresh have ne': "sibs L G (Some q) \<noteq> {}" by (simp add: sibs_insert_root)
        have "is_ring ?s (sibs L G (Some q))"
        proof (rule is_ring_frame[OF old[OF ne']], intro ballI)
          fix x assume "x \<in> sibs L G (Some q)"
          then have "x \<notin> sibs L G None \<union> {a}" using fresh by auto
          from mergeLists_frame[OF rm ring_a m _ this, of a] \<open>min_entry f = Some m\<close>
          show "next (?s x) = next (?s1 x) \<and> prev (?s x) = prev (?s1 x)" by simp
        qed
        then show ?thesis using Some fresh by (simp add: sibs_insert_root)
      qed
    qed
  qed
  have 6: "childs_ok ?s ?L ?G"
    using d(6) fresh nochild by (auto simp: childs_ok_def split: option.splits)
  have "\<And>x. x \<in> L \<Longrightarrow> sibs ?L ?G (Some x) = sibs L G (Some x)"
    using fresh by (auto simp: sibs_def)
  moreover have "sibs ?L ?G (Some a) = {}" using nochild by auto
  then have "card (sibs ?L ?G (Some a)) = 0" by (simp only: card.empty)
  ultimately have 7: "degrees_ok ?s ?L ?G"
    using d(7) fresh by (auto simp: degrees_ok_def)
  from 1 2 3 4 5 6 7 show ?thesis unfolding s_eq struct_ok_def by blast
qed

lemma Enqueue_results:
  "fst (snd (Enqueue s f a el p)) =
     f\<lparr>min_entry := snd (mergeLists (newEntry s a el p) (min_entry f) (Some a)),
       size_count := size_count f + 1\<rparr>"
  "snd (snd (Enqueue s f a el p)) = a"
  "fst (Enqueue s f a el p) = fst (mergeLists (newEntry s a el p) (min_entry f) (Some a))"
  by (simp_all add: Enqueue_def Let_def)

lemma Enqueue_Priority:
  "Priority (fst (Enqueue s f a el p) x) = (if x = a then p else Priority (s x))"
  by (simp add: Enqueue_results)

lemma Enqueue_frame:
  assumes ok: "struct_ok {} s L G" and mo: "min_ok s f L G" and fresh: "a \<notin> L"
    and x: "x \<notin> insert a L"
  shows "fst (Enqueue s f a el p) x = s x"
proof (cases "min_entry f")
  case None
  with x show ?thesis by (simp add: Enqueue_results newEntry_def)
next
  case (Some m)
  with mo have m: "m \<in> sibs L G None" by (simp add: min_ok_def)
  with struct_okD(5)[OF ok] have "is_ring s (sibs L G None)" by (auto simp: rings_ok_def)
  then have rm: "is_ring (newEntry s a el p) (sibs L G None)"
    by (rule is_ring_frame) (use fresh in auto)
  have ra: "is_ring (newEntry s a el p) {a}" by (rule is_ring_single) simp_all
  have "x \<notin> sibs L G None \<union> {a}" using x by auto
  from mergeLists_frame[OF rm ra m _ this, of a] x Some show ?thesis
    by (simp add: Enqueue_results newEntry_def)
qed

lemma Enqueue_heap_ok:
  assumes h: "heap_ok s f L G" and fresh: "a \<notin> L" and p: "p \<noteq> NaN"
  shows "heap_ok (fst (Enqueue s f a el p)) (fst (snd (Enqueue s f a el p)))
           (insert a L) (G(a := None))"
proof -
  let ?s = "fst (Enqueue s f a el p)" and ?f = "fst (snd (Enqueue s f a el p))"
  from h have ok: "struct_ok {} s L G" and po: "prio_ok s L G" and mo: "min_ok s f L G"
    and sz: "size_count f = int (card L)"
    by (simp_all add: heap_ok_def)
  note d = struct_okD[OF ok]
  have 1: "struct_ok {} ?s (insert a L) (G(a := None))"
    using Enqueue_struct[OF ok mo fresh] .
  have 2: "prio_ok ?s (insert a L) (G(a := None))"
    using po p fresh d(2)
    by (auto simp: prio_ok_def Enqueue_Priority closed_G_def)
  have 3: "min_ok ?s ?f (insert a L) (G(a := None))"
  proof (cases "min_entry f")
    case None
    with mo have "sibs L G None = {}" by (simp add: min_ok_def)
    with no_roots_empty[OF d(3) d(2)] have "L = {}" by simp
    with None p show ?thesis
      by (simp add: min_ok_def Enqueue_results le64_refl)
  next
    case (Some m)
    with mo have m: "m \<in> L" "G m = None"
      and least: "\<forall>r\<in>L. G r = None \<longrightarrow> le64 (Priority (s m)) (Priority (s r))"
      by (simp_all add: min_ok_def)
    from m fresh have ma: "m \<noteq> a" by auto
    from po m have mn: "Priority (s m) \<noteq> NaN" by (simp add: prio_ok_def)
    show ?thesis
    proof (cases "lt64 (Priority (s m)) p")
      case True
      with Some m ma least fresh show ?thesis
        by (auto simp: min_ok_def Enqueue_results mergeLists_snd Enqueue_Priority lt64_le64)
    next
      case False
      with mn p have le: "le64 p (Priority (s m))" by (simp add: not_lt64)
      have "\<forall>r\<in>L. G r = None \<longrightarrow> le64 p (Priority (s r))"
        using least le le64_trans by blast
      with False Some ma fresh p show ?thesis
        by (auto simp: min_ok_def Enqueue_results mergeLists_snd Enqueue_Priority le64_refl)
    qed
  qed
  have 4: "size_count ?f = int (card (insert a L))"
    using sz fresh d(1) by (simp add: Enqueue_results)
  from 1 2 3 4 show ?thesis by (simp add: heap_ok_def)
qed

lemma empty_heap_ok: "heap_ok s \<lparr>min_entry = None, size_count = 0\<rparr> {} G"
  by (simp add: heap_ok_def struct_ok_def closed_G_def rel_G_def parents_ok_def rings_ok_def
      childs_ok_def degrees_ok_def prio_ok_def min_ok_def)

section \<open>Frames, and MergeFibHeap\<close>

lemma struct_ok_frame:
  assumes ok: "struct_ok X s L G" and same: "\<forall>x\<in>L. s' x = s x"
  shows "struct_ok X s' L G"
proof -
  note d = struct_okD[OF ok]
  have 4: "parents_ok X s' L G" using d(4) same by (simp add: parents_ok_def)
  have 5: "rings_ok s' L G"
    unfolding rings_ok_def
  proof (intro allI impI)
    fix po assume "sibs L G po \<noteq> {}"
    with d(5) have "is_ring s (sibs L G po)" by (simp add: rings_ok_def)
    then show "is_ring s' (sibs L G po)"
      by (rule is_ring_frame) (use same in auto)
  qed
  have 6: "childs_ok s' L G" using d(6) same by (simp add: childs_ok_def)
  have 7: "degrees_ok s' L G" using d(7) same by (simp add: degrees_ok_def)
  from d(1,2,3) 4 5 6 7 show ?thesis by (simp add: struct_ok_def)
qed

lemma heap_ok_frame:
  assumes h: "heap_ok s f L G" and same: "\<forall>x\<in>L. s' x = s x"
  shows "heap_ok s' f L G"
proof -
  from h have ok: "struct_ok {} s L G" and po: "prio_ok s L G" and mo: "min_ok s f L G"
    and sz: "size_count f = int (card L)"
    by (simp_all add: heap_ok_def)
  have cl: "closed_G L G" using struct_okD(2)[OF ok] .
  have 2: "prio_ok s' L G"
    using po same cl by (auto simp: prio_ok_def closed_G_def)
  have 3: "min_ok s' f L G"
    using mo same by (auto simp: min_ok_def split: option.splits)
  from struct_ok_frame[OF ok same] 2 3 sz show ?thesis by (simp add: heap_ok_def)
qed

lemma sibs_join:
  assumes "closed_G LA GA" and "closed_G LB GB" and "LA \<inter> LB = {}"
  shows "sibs (LA \<union> LB) (join_G LA GA GB) po = sibs LA GA po \<union> sibs LB GB po"
  using assms by (auto simp: sibs_def join_G_def)

lemma sibs_join_Some:
  assumes "closed_G LA GA" and "closed_G LB GB" and "LA \<inter> LB = {}"
  shows "sibs (LA \<union> LB) (join_G LA GA GB) (Some p) =
     (if p \<in> LA then sibs LA GA (Some p) else sibs LB GB (Some p))"
  using assms by (auto simp: sibs_def join_G_def closed_G_def)

lemma Merge_results:
  "fst (MergeFibHeap s one two) = fst (mergeLists s (min_entry one) (min_entry two))"
  "fst (snd (MergeFibHeap s one two)) =
     \<lparr>min_entry = snd (mergeLists s (min_entry one) (min_entry two)),
      size_count = size_count one + size_count two\<rparr>"
  "fst (snd (snd (MergeFibHeap s one two))) = one\<lparr>min_entry := None, size_count := 0\<rparr>"
  "snd (snd (snd (MergeFibHeap s one two))) = two\<lparr>min_entry := None, size_count := 0\<rparr>"
  by (simp_all add: MergeFibHeap_def Let_def)

lemma Merge_frame:
  assumes a: "heap_ok s one LA GA" and b: "heap_ok s two LB GB"
    and x: "x \<notin> sibs LA GA None \<union> sibs LB GB None"
  shows "fst (MergeFibHeap s one two) x = s x"
proof (cases "min_entry one")
  case None
  then show ?thesis by (simp add: Merge_results)
next
  case A: (Some ma)
  show ?thesis
  proof (cases "min_entry two")
    case None
    then show ?thesis by (simp add: Merge_results)
  next
    case (Some mb)
    from a A have ma: "ma \<in> sibs LA GA None" by (simp add: heap_ok_def min_ok_def)
    from b Some have mb: "mb \<in> sibs LB GB None" by (simp add: heap_ok_def min_ok_def)
    from a ma have ra: "is_ring s (sibs LA GA None)"
      by (auto simp: heap_ok_def struct_ok_def rings_ok_def)
    from b mb have rb: "is_ring s (sibs LB GB None)"
      by (auto simp: heap_ok_def struct_ok_def rings_ok_def)
    from mergeLists_frame[OF ra rb ma mb x] A Some show ?thesis
      by (simp add: Merge_results)
  qed
qed

lemma Merge_heap_ok:
  assumes a: "heap_ok s one LA GA" and b: "heap_ok s two LB GB" and dj: "LA \<inter> LB = {}"
  shows "heap_ok (fst (MergeFibHeap s one two)) (fst (snd (MergeFibHeap s one two)))
           (LA \<union> LB) (join_G LA GA GB)"
proof -
  let ?s = "fst (MergeFibHeap s one two)" and ?f = "fst (snd (MergeFibHeap s one two))"
  let ?L = "LA \<union> LB" and ?G = "join_G LA GA GB"
  from a have oka: "struct_ok {} s LA GA" and poa: "prio_ok s LA GA" and moa: "min_ok s one LA GA"
    and sza: "size_count one = int (card LA)"
    by (simp_all add: heap_ok_def)
  from b have okb: "struct_ok {} s LB GB" and pob: "prio_ok s LB GB" and mob: "min_ok s two LB GB"
    and szb: "size_count two = int (card LB)"
    by (simp_all add: heap_ok_def)
  note da = struct_okD[OF oka] and db = struct_okD[OF okb]
  note sj = sibs_join[OF da(2) db(2) dj] and sjs = sibs_join_Some[OF da(2) db(2) dj]
  have keep: "\<And>x. parent (?s x) = parent (s x)" "\<And>x. child (?s x) = child (s x)"
    "\<And>x. degree (?s x) = degree (s x)" "\<And>x. Priority (?s x) = Priority (s x)"
    by (simp_all add: Merge_results)
  have 1: "finite ?L" using da(1) db(1) by simp
  have 2: "closed_G ?L ?G" using da(2) db(2) by (auto simp: closed_G_def join_G_def)
  have "rel_G ?L ?G = rel_G LA GA \<union> rel_G LB GB"
    using dj by (auto simp: rel_G_def join_G_def)
  moreover have "Domain (rel_G LA GA) \<inter> Range (rel_G LB GB) = {}"
    using dj da(2) by (auto simp: rel_G_def closed_G_def)
  ultimately have 3: "wf (rel_G ?L ?G)" using da(3) db(3) by (simp add: wf_Un)
  have 4: "parents_ok {} ?s ?L ?G"
    using da(4) db(4) dj by (auto simp: parents_ok_def join_G_def keep)
  have ringa: "\<And>po. sibs LA GA po \<noteq> {} \<Longrightarrow> is_ring s (sibs LA GA po)"
    using da(5) by (simp add: rings_ok_def)
  have ringb: "\<And>po. sibs LB GB po \<noteq> {} \<Longrightarrow> is_ring s (sibs LB GB po)"
    using db(5) by (simp add: rings_ok_def)
  have nonroot: "\<And>q x. x \<in> sibs LA GA (Some q) \<union> sibs LB GB (Some q) \<Longrightarrow>
      next (?s x) = next (s x) \<and> prev (?s x) = prev (s x)"
  proof -
    fix q x assume x: "x \<in> sibs LA GA (Some q) \<union> sibs LB GB (Some q)"
    then have "x \<notin> sibs LA GA None \<union> sibs LB GB None" using dj by auto
    from Merge_frame[OF a b this] have "?s x = s x" .
    then show "next (?s x) = next (s x) \<and> prev (?s x) = prev (s x)" by (simp only:)
  qed
  have 5: "rings_ok ?s ?L ?G"
    unfolding rings_ok_def
  proof (intro allI impI)
    fix po assume ne: "sibs ?L ?G po \<noteq> {}"
    show "is_ring ?s (sibs ?L ?G po)"
    proof (cases po)
      case (Some q)
      have "is_ring s (sibs ?L ?G po)"
        using ne ringa[of po] ringb[of po] unfolding Some sjs by (auto split: if_splits)
      then show ?thesis
        by (rule is_ring_frame) (use nonroot[of _ q] in \<open>auto simp: Some sjs split: if_splits\<close>)
    next
      case None
      show ?thesis
      proof (cases "min_entry one")
        case A: None
        with moa have "sibs LA GA None = {}" by (simp add: min_ok_def)
        then have e: "sibs ?L ?G None = sibs LB GB None" unfolding sj by (simp only: Un_empty_left)
        with ne None ringb[of None] have "is_ring s (sibs LB GB None)" by simp
        with e A None show ?thesis by (simp add: Merge_results)
      next
        case A: (Some ma)
        from moa A have ma: "ma \<in> sibs LA GA None" by (simp add: min_ok_def)
        then have ra: "is_ring s (sibs LA GA None)" using ringa[of None] by auto
        show ?thesis
        proof (cases "min_entry two")
          case B: None
          with mob have "sibs LB GB None = {}" by (simp add: min_ok_def)
          then have e: "sibs ?L ?G None = sibs LA GA None" unfolding sj by (simp only: Un_empty_right)
          with ra A B None show ?thesis by (simp add: Merge_results)
        next
          case B: (Some mb)
          from mob B have mb: "mb \<in> sibs LB GB None" by (simp add: min_ok_def)
          then have rb: "is_ring s (sibs LB GB None)" using ringb[of None] by auto
          have "sibs LA GA None \<inter> sibs LB GB None = {}" using dj by auto
          from is_ring_splice[OF ra rb this ma mb] A B None show ?thesis
            by (simp add: Merge_results sj)
        qed
      qed
    qed
  qed
  have 6: "childs_ok ?s ?L ?G"
    using da(6) db(6) dj unfolding childs_ok_def keep sjs by auto
  have 7: "degrees_ok ?s ?L ?G"
    using da(7) db(7) dj unfolding degrees_ok_def keep sjs by auto
  have s: "struct_ok {} ?s ?L ?G" using 1 2 3 4 5 6 7 by (simp add: struct_ok_def)
  have p: "prio_ok ?s ?L ?G"
    using poa pob dj unfolding prio_ok_def keep by (auto simp: join_G_def)
  have nn: "\<And>x. x \<in> ?L \<Longrightarrow> Priority (s x) \<noteq> NaN"
    using poa pob by (auto simp: prio_ok_def)
  have m: "min_ok ?s ?f ?L ?G"
  proof (cases "min_entry one")
    case A: None
    with moa have "sibs LA GA None = {}" by (simp add: min_ok_def)
    with no_roots_empty[OF da(3) da(2)] have "LA = {}" by simp
    with A mob show ?thesis
      by (auto simp: min_ok_def Merge_results keep join_G_def split: option.splits)
  next
    case A: (Some ma)
    from moa A have ma: "ma \<in> LA" "GA ma = None"
      and la: "\<forall>r\<in>LA. GA r = None \<longrightarrow> le64 (Priority (s ma)) (Priority (s r))"
      by (simp_all add: min_ok_def)
    show ?thesis
    proof (cases "min_entry two")
      case B: None
      with mob have "sibs LB GB None = {}" by (simp add: min_ok_def)
      with no_roots_empty[OF db(3) db(2)] have "LB = {}" by simp
      with A B ma la show ?thesis
        by (auto simp: min_ok_def Merge_results keep join_G_def)
    next
      case B: (Some mb)
      from mob B have mb: "mb \<in> LB" "GB mb = None"
        and lb: "\<forall>r\<in>LB. GB r = None \<longrightarrow> le64 (Priority (s mb)) (Priority (s r))"
        by (simp_all add: min_ok_def)
      from mb dj have mbn: "mb \<notin> LA" by auto
      show ?thesis
      proof (cases "lt64 (Priority (s ma)) (Priority (s mb))")
        case True
        then have "le64 (Priority (s ma)) (Priority (s mb))" by (rule lt64_le64)
        with lb have "\<forall>r\<in>LB. GB r = None \<longrightarrow> le64 (Priority (s ma)) (Priority (s r))"
          using le64_trans by blast
        with True A B ma la show ?thesis
          by (auto simp: min_ok_def Merge_results keep join_G_def mergeLists_snd)
      next
        case False
        with nn[of ma] nn[of mb] ma mb have "le64 (Priority (s mb)) (Priority (s ma))"
          by (simp add: not_lt64)
        with la have "\<forall>r\<in>LA. GA r = None \<longrightarrow> le64 (Priority (s mb)) (Priority (s r))"
          using le64_trans by blast
        with False A B mb mbn lb show ?thesis
          by (auto simp: min_ok_def Merge_results keep join_G_def mergeLists_snd)
      qed
    qed
  qed
  have z: "size_count ?f = int (card ?L)"
    using sza szb da(1) db(1) dj by (simp add: Merge_results card_Un_disjoint)
  from s p m z show ?thesis by (simp add: heap_ok_def)
qed

section \<open>The loops around a ring\<close>

lemma clear_all_read [simp]:
  "parent (clear_all s A x) = (if x \<in> A then None else parent (s x))"
  "next (clear_all s A x) = next (s x)"
  "prev (clear_all s A x) = prev (s x)"
  "child (clear_all s A x) = child (s x)"
  "degree (clear_all s A x) = degree (s x)"
  "marked (clear_all s A x) = marked (s x)"
  "Element (clear_all s A x) = Element (s x)"
  "Priority (clear_all s A x) = Priority (s x)"
  by (simp_all add: clear_all_def)

lemma clear_all_step: "clear_all (set_parent s c None) A = clear_all s (insert c A)"
  by (auto simp: clear_all_def set_parent_def fun_eq_iff)

lemma clear_all_empty: "clear_all s {} = s"
  by (simp add: clear_all_def)

lemma clear_parents_chain:
  assumes "chain s c rest c0" and "c0 \<notin> set rest" and "child (s m) = Some c0"
    and "length rest < fuel"
  shows "clear_parents fuel s m c = Inr (clear_all s (set (c # rest)))"
  using assms
proof (induction rest arbitrary: s c fuel)
  case Nil
  then obtain n where fuel: "fuel = Suc n" by (cases fuel) auto
  from Nil show ?case
    by (simp add: fuel Let_def clear_all_step[symmetric] clear_all_empty)
next
  case (Cons r rs)
  then obtain n where fuel: "fuel = Suc n" by (cases fuel) auto
  let ?s1 = "set_parent s c None"
  from Cons.prems have n: "next (s c) = r" "r \<noteq> c0" by auto
  have ch: "chain ?s1 r rs c0 = chain s r rs c0" by (rule chain_frame) simp_all
  with Cons.prems have 1: "chain ?s1 r rs c0" by simp
  have "clear_parents n ?s1 m r = Inr (clear_all ?s1 (set (r # rs)))"
    by (rule Cons.IH[OF 1]) (use Cons.prems fuel in auto)
  with n Cons.prems(3) show ?case
    by (simp add: fuel Let_def clear_all_step)
qed

lemma clear_parents_ring:
  assumes "ring s (c # cs)" and "child (s m) = Some c" and "length cs < fuel"
  shows "clear_parents fuel s m c = Inr (clear_all s (set (c # cs)))"
  using assms by (intro clear_parents_chain) (auto simp: ring_Cons)

lemma collect_chain:
  assumes "chain s c rest (hd tv)" and "tv \<noteq> []" and "distinct (tv @ c # rest)"
    and "length rest + 2 \<le> fuel"
  shows "collect fuel s tv c = Inr (tv @ c # rest)"
  using assms
proof (induction rest arbitrary: tv c fuel)
  case Nil
  then obtain n where fuel: "fuel = Suc (Suc n)"
    by (cases fuel; cases "fuel - 1") auto
  from Nil.prems have "hd tv \<noteq> c" by (cases tv) auto
  with Nil.prems show ?case by (simp add: fuel)
next
  case (Cons r rs)
  then obtain n where fuel: "fuel = Suc n" by (cases fuel) auto
  from Cons.prems have h: "hd tv \<noteq> c" by (cases tv) auto
  from Cons.prems have n: "next (s c) = r" and ch: "chain s r rs (hd (tv @ [c]))"
    by auto
  have "collect n s (tv @ [c]) r = Inr ((tv @ [c]) @ r # rs)"
    by (rule Cons.IH[OF ch]) (use Cons.prems fuel in auto)
  with h n Cons.prems(2) show ?case by (simp add: fuel)
qed

lemma collect_ring:
  assumes r: "ring s (a # as)" and fuel: "length as + 2 \<le> fuel"
  shows "collect fuel s [] a = Inr (a # as)"
proof -
  from fuel obtain n where n: "fuel = Suc n" by (cases fuel) auto
  from r have c: "chain s a as a" and d: "distinct (a # as)" by (auto simp: ring_Cons)
  show ?thesis
  proof (cases as)
    case Nil
    with c fuel n show ?thesis by (cases n) auto
  next
    case (Cons b bs)
    with c have nb: "next (s a) = b" and cb: "chain s b bs (hd [a])" by auto
    have "collect n s [a] b = Inr ([a] @ b # bs)"
      by (rule collect_chain[OF cb]) (use d Cons fuel n in auto)
    with nb Cons show ?thesis by (simp add: n)
  qed
qed

section \<open>The extraction of the minimum\<close>

lemma is_ring_prev_self: "is_ring s A \<Longrightarrow> a \<in> A \<Longrightarrow> (prev (s a) = a) = (A = {a})"
proof -
  assume "is_ring s A" "a \<in> A"
  then obtain as where r: "ring s (a # as)" "set (a # as) = A" using is_ring_from by blast
  from ring_prev_self[OF r(1)] r show ?thesis
    by (cases as) (auto simp: ring_Cons)
qed

lemma splice_out_frame: "x \<noteq> prev (s a) \<Longrightarrow> x \<noteq> next (s a) \<Longrightarrow> splice_out s a x = s x"
  by (simp add: splice_out_def set_next_def set_prev_def)

lemma unlink_min_ring:
  assumes "is_ring s R" and "m \<in> R"
  shows "fst (unlink_min s f m) = (if R = {m} then s else splice_out s m)"
    and "min_entry (snd (unlink_min s f m)) = (if R = {m} then None else Some (next (s m)))"
  using is_ring_next_self[OF assms] is_ring_prev_self[OF assms]
  by (auto simp: unlink_min_def Let_def splice_out_def)

lemma card_ring: "ring s xs \<Longrightarrow> length xs = card (set xs)"
  by (cases xs) (auto simp: ring_Cons distinct_card)

lemma clear_children_ring:
  assumes ch: "case child (s m) of None \<Rightarrow> C = {} | Some c \<Rightarrow> c \<in> C"
    and ring: "C \<noteq> {} \<Longrightarrow> is_ring s C" and fuel: "card C \<le> fuel"
  shows "clear_children fuel s m = Inr (clear_all s C)"
proof (cases "child (s m)")
  case None
  with ch show ?thesis by (simp add: clear_children_def clear_all_empty)
next
  case (Some c)
  with ch have c: "c \<in> C" by simp
  with ring is_ring_from[of s C c] obtain cs where r: "ring s (c # cs)" "set (c # cs) = C"
    by blast
  from card_ring[OF r(1)] r(2) fuel have "length cs < fuel" by simp
  from clear_parents_ring[OF r(1) Some this] Some r(2) show ?thesis
    by (simp add: clear_children_def)
qed

lemma sibs_drop_None:
  "G m = None \<Longrightarrow> sibs (L - {m}) (drop_G G m) None = (sibs L G None - {m}) \<union> sibs L G (Some m)"
  by (auto simp: sibs_def drop_G_def)

lemma sibs_drop_Some:
  "G m = None \<Longrightarrow> sibs (L - {m}) (drop_G G m) (Some p) = (if p = m then {} else sibs L G (Some p))"
  by (auto simp: sibs_def drop_G_def)

lemma is_ring_same: "is_ring s A \<Longrightarrow> (\<And>x. x \<in> A \<Longrightarrow> s' x = s x) \<Longrightarrow> is_ring s' A"
  using is_ring_frame[of s A s'] by simp

lemma merge_rings:
  assumes x: "case x of None \<Rightarrow> A = {} | Some a \<Rightarrow> a \<in> A \<and> is_ring s A"
    and y: "case y of None \<Rightarrow> B = {} | Some b \<Rightarrow> b \<in> B \<and> is_ring s B"
    and dj: "A \<inter> B = {}"
  shows "A \<union> B \<noteq> {} \<Longrightarrow> is_ring (fst (mergeLists s x y)) (A \<union> B)"
    and "case snd (mergeLists s x y) of None \<Rightarrow> A \<union> B = {} | Some c \<Rightarrow> c \<in> A \<union> B"
    and "z \<notin> A \<union> B \<Longrightarrow> fst (mergeLists s x y) z = s z"
proof -
  show "A \<union> B \<noteq> {} \<Longrightarrow> is_ring (fst (mergeLists s x y)) (A \<union> B)"
    using x y dj is_ring_splice[of s A B]
    by (cases x; cases y) auto
  show "case snd (mergeLists s x y) of None \<Rightarrow> A \<union> B = {} | Some c \<Rightarrow> c \<in> A \<union> B"
    using x y by (cases x; cases y) (auto simp: mergeLists_snd)
  show "z \<notin> A \<union> B \<Longrightarrow> fst (mergeLists s x y) z = s z"
    using x y mergeLists_frame[of s A B _ _ z]
    by (cases x; cases y) auto
qed

lemma extract_ok:
  assumes ok: "struct_ok {} s L G" and po: "prio_ok s L G"
    and m: "m \<in> L" "G m = None" and fuel: "card L \<le> fuel"
  shows "\<exists>s4 mp. extracted fuel s f1 m = Inr (s4, mp)
      \<and> struct_ok {} s4 (L - {m}) (drop_G G m)
      \<and> prio_ok s4 (L - {m}) (drop_G G m)
      \<and> (case mp of None \<Rightarrow> L - {m} = {}
          | Some c0 \<Rightarrow> c0 \<in> L - {m} \<and> drop_G G m c0 = None)
      \<and> (\<forall>x. x \<notin> L - {m} \<longrightarrow> s4 x = s x)
      \<and> (\<forall>x. Priority (s4 x) = Priority (s x) \<and> marked (s4 x) = marked (s x)
             \<and> child (s4 x) = child (s x) \<and> degree (s4 x) = degree (s x)
             \<and> Element (s4 x) = Element (s x)
             \<and> parent (s4 x) = (if x \<in> sibs L G (Some m) then None else parent (s x)))"
proof -
  let ?R = "sibs L G None"
  let ?L = "L - {m}" and ?G = "drop_G G m"
  define R' where "R' = sibs L G None - {m}"
  define C where "C = sibs L G (Some m)"
  note d = struct_okD[OF ok]
  have mR: "m \<in> ?R" using m by simp
  have ringR: "is_ring s ?R" using d(5) mR by (auto simp: rings_ok_def)
  have ring_s: "\<And>po. sibs L G po \<noteq> {} \<Longrightarrow> is_ring s (sibs L G po)"
    using d(5) by (simp add: rings_ok_def)
  have Rm: "(?R = {m}) = (R' = {})" using mR unfolding R'_def by blast
  let ?u = "unlink_min s f1 m"
  let ?s2 = "fst ?u"
  have s2: "?s2 = (if R' = {} then s else splice_out s m)"
    and m2: "min_entry (snd ?u) = (if R' = {} then None else Some (next (s m)))"
    using unlink_min_ring[OF ringR mR] unfolding Rm by blast+
  have nR: "next (s m) \<in> ?R" "prev (s m) \<in> ?R"
    using is_ring_next_in[OF ringR mR] is_ring_prev_in[OF ringR mR] by blast+
  have nm: "R' \<noteq> {} \<Longrightarrow> next (s m) \<noteq> m"
    using is_ring_next_self[OF ringR mR] unfolding Rm by simp
  have pm: "R' \<noteq> {} \<Longrightarrow> prev (s m) \<noteq> m"
    using is_ring_prev_self[OF ringR mR] unfolding Rm by simp
  have r0: "R' \<noteq> {} \<Longrightarrow> next (s m) \<in> R'" using nR nm unfolding R'_def by blast
  have p0: "R' \<noteq> {} \<Longrightarrow> prev (s m) \<in> R'" using nR pm unfolding R'_def by blast
  have fr2: "\<And>x. x \<notin> R' \<Longrightarrow> ?s2 x = s x"
    using r0 p0 by (auto simp: s2 intro!: splice_out_frame)
  have keep2: "\<And>x. parent (?s2 x) = parent (s x)" "\<And>x. child (?s2 x) = child (s x)"
    "\<And>x. degree (?s2 x) = degree (s x)" "\<And>x. Priority (?s2 x) = Priority (s x)"
    "\<And>x. marked (?s2 x) = marked (s x)" "\<And>x. Element (?s2 x) = Element (s x)"
    by (simp_all add: s2)
  have ringR2: "R' \<noteq> {} \<Longrightarrow> is_ring ?s2 R'"
    using is_ring_splice_out[OF ringR mR] unfolding Rm[symmetric] R'_def by (simp add: s2 R'_def)
  have dj: "R' \<inter> C = {}" unfolding R'_def C_def by auto
  have ringC2: "C \<noteq> {} \<Longrightarrow> is_ring ?s2 C"
  proof -
    assume "C \<noteq> {}"
    then have "is_ring s C" using ring_s[of "Some m"] unfolding C_def by simp
    then show "is_ring ?s2 C"
      by (rule is_ring_same) (use fr2 dj in blast)
  qed
  have chC: "case child (s m) of None \<Rightarrow> C = {} | Some c \<Rightarrow> c \<in> C"
    using d(6) m(1) unfolding childs_ok_def C_def by blast
  then have chm: "case child (?s2 m) of None \<Rightarrow> C = {} | Some c \<Rightarrow> c \<in> C"
    by (simp add: keep2)
  have "C \<subseteq> L - {m}" using m(2) unfolding C_def by auto
  then have "card C \<le> card (L - {m})" using d(1) by (intro card_mono) auto
  also have "\<dots> < card L" using d(1) m(1) by (rule card_Diff1_less)
  finally have cC: "card C \<le> fuel" using fuel by simp
  let ?s3 = "clear_all ?s2 C"
  have cc: "clear_children fuel ?s2 m = Inr ?s3"
    by (rule clear_children_ring[OF chm ringC2 cC])
  let ?r = "mergeLists ?s3 (min_entry (snd ?u)) (child (?s3 m))"
  let ?s4 = "fst ?r"
  have ex: "extracted fuel s f1 m = Inr (?s4, snd ?r)"
    by (simp add: extracted_def Let_def cc)
  have ringR3: "R' \<noteq> {} \<Longrightarrow> is_ring ?s3 R'"
    by (rule is_ring_frame[OF ringR2]) simp_all
  have ringC3: "C \<noteq> {} \<Longrightarrow> is_ring ?s3 C"
    by (rule is_ring_frame[OF ringC2]) simp_all
  have ch3: "child (?s3 m) = child (s m)" by (simp add: keep2)
  have roots: "sibs ?L ?G None = R' \<union> C"
    unfolding R'_def C_def using m(2) by (rule sibs_drop_None[of G m L])
  have x: "case min_entry (snd ?u) of None \<Rightarrow> R' = {} | Some a \<Rightarrow> a \<in> R' \<and> is_ring ?s3 R'"
    using r0 ringR3 by (simp add: m2)
  have y: "case child (?s3 m) of None \<Rightarrow> C = {} | Some b \<Rightarrow> b \<in> C \<and> is_ring ?s3 C"
    using chC ringC3 unfolding ch3 by (auto split: option.splits)
  note mr = merge_rings[OF x y dj]
  have keep4: "\<And>x. parent (?s4 x) = (if x \<in> C then None else parent (s x))"
    "\<And>x. child (?s4 x) = child (s x)"
    "\<And>x. degree (?s4 x) = degree (s x)" "\<And>x. Priority (?s4 x) = Priority (s x)"
    "\<And>x. marked (?s4 x) = marked (s x)" "\<And>x. Element (?s4 x) = Element (s x)"
    by (simp_all add: keep2)
  have fr: "\<And>x. x \<notin> R' \<union> C \<Longrightarrow> ?s4 x = s x"
  proof -
    fix x assume x: "x \<notin> R' \<union> C"
    then have "?s3 x = ?s2 x" by (simp add: clear_all_def)
    with mr(3)[OF x] fr2[of x] x show "?s4 x = s x" by simp
  qed
  have 1: "finite ?L" using d(1) by simp
  have 2: "closed_G ?L ?G" using d(2) by (auto simp: closed_G_def drop_G_def split: if_splits)
  have "rel_G ?L ?G \<subseteq> rel_G L G" by (auto simp: rel_G_def drop_G_def split: if_splits)
  then have 3: "wf (rel_G ?L ?G)" using d(3) by (rule wf_subset[rotated])
  have 4: "parents_ok {} ?s4 ?L ?G"
    using d(4) unfolding parents_ok_def keep4 by (auto simp: drop_G_def C_def)
  have 5: "rings_ok ?s4 ?L ?G"
    unfolding rings_ok_def
  proof (intro allI impI)
    fix po assume ne: "sibs ?L ?G po \<noteq> {}"
    show "is_ring ?s4 (sibs ?L ?G po)"
    proof (cases po)
      case None
      with ne mr(1) roots show ?thesis by simp
    next
      case (Some p)
      with ne have pm: "p \<noteq> m" and e: "sibs ?L ?G po = sibs L G (Some p)"
        by (auto simp: sibs_drop_Some[of G m L, OF m(2)] split: if_splits)
      with ne ring_s[of "Some p"] have "is_ring s (sibs L G (Some p))" by simp
      then have "is_ring ?s4 (sibs L G (Some p))"
      proof (rule is_ring_same)
        fix x assume "x \<in> sibs L G (Some p)"
        with pm have "x \<notin> R' \<union> C" unfolding R'_def C_def by auto
        from fr[OF this] show "?s4 x = s x" .
      qed
      with e show ?thesis by simp
    qed
  qed
  have 6: "childs_ok ?s4 ?L ?G"
    using d(6) unfolding childs_ok_def keep4
    by (auto simp: sibs_drop_Some[of G m L, OF m(2)] split: option.splits)
  have 7: "degrees_ok ?s4 ?L ?G"
    using d(7) unfolding degrees_ok_def keep4
    by (auto simp: sibs_drop_Some[of G m L, OF m(2)])
  have S: "struct_ok {} ?s4 ?L ?G" using 1 2 3 4 5 6 7 by (simp add: struct_ok_def)
  have P: "prio_ok ?s4 ?L ?G"
    using po unfolding prio_ok_def keep4 by (auto simp: drop_G_def split: if_splits)
  have M: "case snd ?r of None \<Rightarrow> ?L = {} | Some c0 \<Rightarrow> c0 \<in> ?L \<and> ?G c0 = None"
  proof (cases "snd ?r")
    case None
    with mr(2) roots have "sibs ?L ?G None = {}" by (simp only: option.case)
    from no_roots_empty[OF 3 2 this] None show ?thesis by simp
  next
    case (Some c0)
    with mr(2) roots have "c0 \<in> sibs ?L ?G None" by (simp only: option.case)
    with Some show ?thesis by simp
  qed
  have F: "\<forall>x. x \<notin> ?L \<longrightarrow> ?s4 x = s x"
  proof (intro allI impI)
    fix x assume "x \<notin> ?L"
    then have "x \<notin> R' \<union> C" using m(2) unfolding R'_def C_def by auto
    from fr[OF this] show "?s4 x = s x" .
  qed
  have K: "\<forall>x. Priority (?s4 x) = Priority (s x) \<and> marked (?s4 x) = marked (s x)
             \<and> child (?s4 x) = child (s x) \<and> degree (?s4 x) = degree (s x)
             \<and> Element (?s4 x) = Element (s x)
             \<and> parent (?s4 x) = (if x \<in> sibs L G (Some m) then None else parent (s x))"
    using keep4 unfolding C_def by blast
  from ex S P M F K show ?thesis by blast
qed

section \<open>The link of two roots\<close>

lemma splice_out_alt:
  "set_next (set_prev s (next (s a)) (prev (s a))) (prev (s a)) (next (s a)) = splice_out s a"
  by (auto simp: fun_eq_iff set_next_def set_prev_def splice_out_def)

lemma alone_read [simp]:
  "next (alone s a x) = (if x = a then a else next (s x))"
  "prev (alone s a x) = (if x = a then a else prev (s x))"
  "degree (alone s a x) = degree (s x)"
  "marked (alone s a x) = marked (s x)"
  "parent (alone s a x) = parent (s x)"
  "child (alone s a x) = child (s x)"
  "Element (alone s a x) = Element (s x)"
  "Priority (alone s a x) = Priority (s x)"
  by (simp_all add: alone_def)

lemma alone_frame: "x \<noteq> a \<Longrightarrow> alone s a x = s x"
  by (simp add: alone_def set_next_def set_prev_def)

lemma link_eq:
  "next (s mx) \<noteq> mx \<Longrightarrow>
   link s mn mx =
     (let s4 = alone (splice_out s mx) mx;
          r = mergeLists s4 (child (s4 mn)) (Some mx)
      in set_degree (set_marked (set_parent (set_child (fst r) mn (snd r)) mx (Some mn)) mx False)
           mn (degree (s mn) + 1))"
  unfolding link_def Let_def
  by (simp add: splice_out_alt alone_def[symmetric] eq_commute[of mx])

lemma sibs_link_None:
  "G mx = None \<Longrightarrow> sibs L (G(mx := Some mn)) None = sibs L G None - {mx}"
  by (auto simp: sibs_def)

lemma sibs_link_Some:
  "G mx = None \<Longrightarrow> mx \<in> L \<Longrightarrow>
   sibs L (G(mx := Some mn)) (Some p) = (if p = mn then insert mx (sibs L G (Some mn)) else sibs L G (Some p))"
  by (auto simp: sibs_def)

lemma link_ok:
  assumes ok: "struct_ok {} s L G" and po: "prio_ok s L G"
    and mn: "mn \<in> L" "G mn = None" and mx: "mx \<in> L" "G mx = None" and ne: "mn \<noteq> mx"
    and le: "le64 (Priority (s mn)) (Priority (s mx))"
  shows "struct_ok {} (link s mn mx) L (G(mx := Some mn))"
    and "prio_ok (link s mn mx) L (G(mx := Some mn))"
    and "\<forall>x. degree (link s mn mx x) = (if x = mn then degree (s mn) + 1 else degree (s x))"
    and "\<forall>x. Priority (link s mn mx x) = Priority (s x) \<and> Element (link s mn mx x) = Element (s x)"
    and "\<forall>x. x \<notin> L \<longrightarrow> link s mn mx x = s x"
proof -
  let ?G = "G(mx := Some mn)"
  define R where "R = sibs L G None"
  define C where "C = sibs L G (Some mn)"
  note d = struct_okD[OF ok]
  have ring_s: "\<And>po. sibs L G po \<noteq> {} \<Longrightarrow> is_ring s (sibs L G po)"
    using d(5) by (simp add: rings_ok_def)
  have inR: "mn \<in> R" "mx \<in> R" using mn mx by (simp_all add: R_def)
  then have ringR: "is_ring s R" using ring_s[of None] unfolding R_def by auto
  have Rne: "R \<noteq> {mx}" using inR ne by auto
  have nx: "next (s mx) \<noteq> mx" using is_ring_next_self[OF ringR inR(2)] Rne by simp
  have nR: "next (s mx) \<in> R" "prev (s mx) \<in> R"
    using is_ring_next_in[OF ringR inR(2)] is_ring_prev_in[OF ringR inR(2)] by blast+
  let ?s2 = "splice_out s mx"
  let ?s4 = "alone ?s2 mx"
  let ?r = "mergeLists ?s4 (child (?s4 mn)) (Some mx)"
  let ?s5 = "fst ?r"
  let ?s = "link s mn mx"
  have s_eq: "?s = set_degree (set_marked (set_parent (set_child ?s5 mn (snd ?r)) mx (Some mn)) mx False)
           mn (degree (s mn) + 1)"
    using link_eq[of s mx mn, OF nx] by (simp add: Let_def)
  have rd: "\<And>x. next (?s x) = next (?s5 x)" "\<And>x. prev (?s x) = prev (?s5 x)"
    "\<And>x. parent (?s x) = (if x = mx then Some mn else parent (s x))"
    "\<And>x. child (?s x) = (if x = mn then snd ?r else child (s x))"
    "\<And>x. degree (?s x) = (if x = mn then degree (s mn) + 1 else degree (s x))"
    "\<And>x. Priority (?s x) = Priority (s x)" "\<And>x. Element (?s x) = Element (s x)"
    unfolding s_eq by simp_all
  have fr4: "\<And>x. x \<notin> R \<Longrightarrow> ?s4 x = s x"
  proof -
    fix x assume "x \<notin> R"
    with nR inR have "x \<noteq> mx" "x \<noteq> prev (s mx)" "x \<noteq> next (s mx)" by auto
    then show "?s4 x = s x" by (simp add: alone_frame splice_out_frame)
  qed
  have ringR4: "is_ring ?s4 (R - {mx})"
    by (rule is_ring_same[OF is_ring_splice_out[OF ringR inR(2) Rne]]) (simp add: alone_frame)
  have dj: "C \<inter> {mx} = {}" using mx(2) by (auto simp: C_def)
  have dRC: "R \<inter> C = {}" by (auto simp: R_def C_def)
  have ringC4: "C \<noteq> {} \<Longrightarrow> is_ring ?s4 C"
  proof -
    assume "C \<noteq> {}"
    then have "is_ring s C" using ring_s[of "Some mn"] unfolding C_def by simp
    then show "is_ring ?s4 C" by (rule is_ring_same) (use fr4 dRC in blast)
  qed
  have ringx: "is_ring ?s4 {mx}" by (rule is_ring_single) simp_all
  have chC: "case child (s mn) of None \<Rightarrow> C = {} | Some c \<Rightarrow> c \<in> C"
    using d(6) mn(1) unfolding childs_ok_def C_def by blast
  have x: "case child (?s4 mn) of None \<Rightarrow> C = {} | Some a \<Rightarrow> a \<in> C \<and> is_ring ?s4 C"
    using chC ringC4 by (auto split: option.splits)
  have y: "case Some mx of None \<Rightarrow> {mx} = {} | Some b \<Rightarrow> b \<in> {mx} \<and> is_ring ?s4 {mx}"
    using ringx by simp
  note mr = merge_rings[OF x y dj]
  have ringC5: "is_ring ?s5 (insert mx C)" using mr(1) by simp
  have chr: "\<exists>c. snd ?r = Some c \<and> c \<in> insert mx C"
    using mr(2) by (auto split: option.splits)
  have fr5: "\<And>x. x \<notin> insert mx C \<Longrightarrow> ?s5 x = ?s4 x" using mr(3) by simp
  have ringR5: "is_ring ?s5 (R - {mx})"
    by (rule is_ring_same[OF ringR4]) (use fr5 dRC in blast)
  have fr: "\<And>x. x \<notin> R \<union> C \<Longrightarrow> ?s5 x = s x"
  proof -
    fix x assume "x \<notin> R \<union> C"
    with inR have x: "x \<notin> insert mx C" "x \<notin> R" by auto
    from fr5[OF x(1)] fr4[OF x(2)] show "?s5 x = s x" by simp
  qed
  have sN: "sibs L ?G None = R - {mx}" unfolding R_def using mx(2) by (rule sibs_link_None)
  have sS: "\<And>p. sibs L ?G (Some p) = (if p = mn then insert mx C else sibs L G (Some p))"
    unfolding C_def using mx(2,1) by (rule sibs_link_Some)
  have 1: "finite L" using d(1) .
  have 2: "closed_G L ?G" using d(2) mn(1) by (auto simp: closed_G_def)
  have "rel_G L ?G = insert (mn, mx) (rel_G L G)"
    using mx by (auto simp: rel_G_def split: if_splits)
  moreover have "(mx, mn) \<notin> (rel_G L G)\<^sup>*"
  proof
    assume "(mx, mn) \<in> (rel_G L G)\<^sup>*"
    then show False using ne mn(2) by (cases rule: rtranclE) auto
  qed
  ultimately have 3: "wf (rel_G L ?G)" using d(3) by (simp add: wf_insert)
  have 4: "parents_ok {} ?s L ?G" using d(4) by (auto simp: parents_ok_def rd)
  have 5: "rings_ok ?s L ?G"
    unfolding rings_ok_def
  proof (intro allI impI)
    fix po assume nem: "sibs L ?G po \<noteq> {}"
    have "is_ring ?s5 (sibs L ?G po)"
    proof (cases po)
      case None
      with ringR5 sN show ?thesis by simp
    next
      case (Some p)
      show ?thesis
      proof (cases "p = mn")
        case True
        with ringC5 Some sS show ?thesis by simp
      next
        case False
        with Some sS nem have e: "sibs L ?G po = sibs L G (Some p)" "sibs L G (Some p) \<noteq> {}"
          by simp_all
        from ring_s[OF e(2)] have "is_ring s (sibs L G (Some p))" .
        then have "is_ring ?s5 (sibs L G (Some p))"
        proof (rule is_ring_same)
          fix x assume "x \<in> sibs L G (Some p)"
          with False have "x \<notin> R \<union> C" by (auto simp: R_def C_def)
          from fr[OF this] show "?s5 x = s x" .
        qed
        with e show ?thesis by simp
      qed
    qed
    then show "is_ring ?s (sibs L ?G po)"
      by (rule is_ring_frame) (simp add: rd)
  qed
  have 6: "childs_ok ?s L ?G"
    unfolding childs_ok_def
  proof
    fix p assume p: "p \<in> L"
    show "case child (?s p) of None \<Rightarrow> sibs L ?G (Some p) = {} | Some c \<Rightarrow> c \<in> sibs L ?G (Some p)"
    proof (cases "p = mn")
      case True
      with chr show ?thesis unfolding rd sS by auto
    next
      case False
      with d(6) p show ?thesis unfolding rd sS childs_ok_def by auto
    qed
  qed
  have fC: "finite C" using d(1) by (auto simp: C_def sibs_def)
  have mxC: "mx \<notin> C" using mx(2) by (auto simp: C_def)
  have 7: "degrees_ok ?s L ?G"
    using d(7) mn(1) fC mxC unfolding degrees_ok_def rd sS by (auto simp: C_def)
  show "struct_ok {} ?s L ?G" using 1 2 3 4 5 6 7 by (simp add: struct_ok_def)
  show "prio_ok ?s L ?G" using po le unfolding prio_ok_def rd by auto
  show "\<forall>x. degree (?s x) = (if x = mn then degree (s mn) + 1 else degree (s x))"
    using rd by blast
  show "\<forall>x. Priority (?s x) = Priority (s x) \<and> Element (?s x) = Element (s x)" using rd by blast
  show "\<forall>x. x \<notin> L \<longrightarrow> ?s x = s x"
  proof (intro allI impI)
    fix x assume "x \<notin> L"
    with mn mx have "x \<notin> R \<union> C" "x \<noteq> mn" "x \<noteq> mx" by (auto simp: R_def C_def)
    with fr[of x] show "?s x = s x"
      unfolding s_eq by (simp add: set_degree_def set_marked_def set_parent_def set_child_def)
  qed
qed

section \<open>The inner loop of the consolidation\<close>

declare grow.simps [simp del]

declare link_loop.simps [simp del]

lemma tabset_iff: "r \<in> tabset T \<longleftrightarrow> (\<exists>d<length T. T ! d = Some r)"
  by (auto simp: tabset_def in_set_conv_nth)

lemma tabset_grow [simp]: "tabset (grow T d) = tabset T"
  by (auto simp: tabset_def grow_eq)

lemma tab_ok_grow: "tab_ok s L G T \<Longrightarrow> tab_ok s L G (grow T d)"
  by (auto simp: tab_ok_def grow_eq nth_append)

lemma length_grow: "0 \<le> d \<Longrightarrow> nat d < length (grow T d)"
  by (simp add: grow_eq)

lemma tabset_fill:
  assumes "i < length T" and "T ! i = None"
  shows "tabset (T[i := Some c]) = insert c (tabset T)"
proof (intro set_eqI iffI)
  fix r assume "r \<in> tabset (T[i := Some c])"
  then obtain d where "d < length T" "T[i := Some c] ! d = Some r"
    by (auto simp: tabset_iff)
  with assms show "r \<in> insert c (tabset T)"
    by (cases "d = i") (auto simp: tabset_iff)
next
  fix r assume r: "r \<in> insert c (tabset T)"
  show "r \<in> tabset (T[i := Some c])"
  proof (cases "r = c")
    case True
    with assms(1) show ?thesis by (auto simp: tabset_iff intro!: exI[of _ i])
  next
    case False
    with r obtain d where d: "d < length T" "T ! d = Some r" by (auto simp: tabset_iff)
    with assms(2) have "d \<noteq> i" by auto
    with d show ?thesis by (auto simp: tabset_iff intro!: exI[of _ d])
  qed
qed

lemma tab_ok_unique:
  assumes "tab_ok s L G T" and "i < length T" and "T ! i = Some x"
    and "j < length T" and "T ! j = Some x"
  shows "j = i"
proof -
  from assms(1,2,3) have "degree (s x) = int i" unfolding tab_ok_def by blast
  moreover from assms(1,4,5) have "degree (s x) = int j" unfolding tab_ok_def by blast
  ultimately show ?thesis by simp
qed

lemma tabset_clear:
  assumes "tab_ok s L G T" and "i < length T" and "T ! i = Some x"
  shows "tabset (T[i := None]) = tabset T - {x}"
proof (intro set_eqI iffI)
  fix r assume "r \<in> tabset (T[i := None])"
  then obtain d where d: "d < length T" "T[i := None] ! d = Some r"
    by (auto simp: tabset_iff)
  with assms(2) have di: "d \<noteq> i" by (auto simp: nth_list_update split: if_splits)
  with d have r: "T ! d = Some r" by simp
  have "r \<noteq> x" using tab_ok_unique[OF assms d(1)] r di by auto
  with d(1) r show "r \<in> tabset T - {x}" by (auto simp: tabset_iff)
next
  fix r assume "r \<in> tabset T - {x}"
  then obtain d where d: "d < length T" "T ! d = Some r" "r \<noteq> x" by (auto simp: tabset_iff)
  with assms(3) have "d \<noteq> i" by auto
  with d show "r \<in> tabset (T[i := None])" by (auto simp: tabset_iff intro!: exI[of _ d])
qed

lemma tab_ok_fill:
  assumes "tab_ok s L G T" and "c \<in> L" and "G c = None" and "degree (s c) = int i"
    and "i < length T"
  shows "tab_ok s L G (T[i := Some c])"
  unfolding tab_ok_def
proof (intro allI impI)
  fix d r assume "d < length (T[i := Some c])" and "T[i := Some c] ! d = Some r"
  with assms show "r \<in> L \<and> G r = None \<and> degree (s r) = int d"
    by (cases "d = i") (auto simp: tab_ok_def)
qed

lemma tab_ok_tabset: "tab_ok s L G T \<Longrightarrow> r \<in> tabset T \<Longrightarrow> r \<in> L \<and> G r = None"
  by (auto simp: tab_ok_def tabset_iff)

lemma smaller_larger:
  assumes "Priority (s a) \<noteq> NaN" and "Priority (s b) \<noteq> NaN"
  shows "le64 (Priority (s (smaller s a b))) (Priority (s (larger s a b)))"
    and "(smaller s a b = a \<and> larger s a b = b) \<or> (smaller s a b = b \<and> larger s a b = a)"
proof -
  show "le64 (Priority (s (smaller s a b))) (Priority (s (larger s a b)))"
  proof (cases "lt64 (Priority (s a)) (Priority (s b))")
    case True
    then show ?thesis by (simp add: smaller_def larger_def lt64_le64)
  next
    case False
    with assms have "le64 (Priority (s b)) (Priority (s a))" by (simp add: not_lt64)
    with False show ?thesis by (simp add: smaller_def larger_def)
  qed
  show "(smaller s a b = a \<and> larger s a b = b) \<or> (smaller s a b = b \<and> larger s a b = a)"
    by (simp add: smaller_def larger_def)
qed

lemma link_loop_ok:
  assumes "struct_ok {} s L G" and "prio_ok s L G" and "tab_ok s L G T"
    and "cur \<in> L" and "G cur = None" and "cur \<notin> tabset T"
  shows "\<exists>s' T' w G'. link_loop s T cur = Inr (s', T', w) \<and> ll_post s L G T cur s' T' w G'"
  using assms
proof (induction s T cur arbitrary: G rule: link_loop.induct)
  case (1 s T cur)
  note ok = "1.prems"(1) and po = "1.prems"(2) and tab = "1.prems"(3)
    and cur = "1.prems"(4,5,6)
  note d = struct_okD[OF ok]
  have nn: "\<And>x. x \<in> L \<Longrightarrow> Priority (s x) \<noteq> NaN" using po by (simp add: prio_ok_def)
  let ?d = "degree (s cur)"
  let ?T1 = "grow T ?d"
  have deg: "?d = int (card (sibs L G (Some cur)))" using d(7) cur(1) by (simp add: degrees_ok_def)
  then have d0: "\<not> ?d < 0" by simp
  have len: "nat ?d < length ?T1" using d0 by (simp add: length_grow)
  have tab1: "tab_ok s L G ?T1" using tab by (rule tab_ok_grow)
  show ?case
  proof (cases "?T1 ! nat ?d")
    case None
    have ll: "link_loop s T cur = Inr (s, ?T1[nat ?d := Some cur], cur)"
      using d0 None by (subst link_loop.simps) simp
    have ts: "tabset (?T1[nat ?d := Some cur]) = insert cur (tabset T)"
      using tabset_fill[OF len None] by simp
    have "tab_ok s L G (?T1[nat ?d := Some cur])"
      using tab1 cur d0 len by (intro tab_ok_fill) simp_all
    with ok po ts cur nn have "ll_post s L G T cur s (?T1[nat ?d := Some cur]) cur G"
      by (auto simp: ll_post_def)
    with ll show ?thesis by blast
  next
    case (Some other)
    define mn where "mn = smaller s other cur"
    define mx where "mx = larger s other cur"
    let ?T2 = "?T1[nat ?d := None]"
    let ?s1 = "link s mn mx"
    let ?G1 = "G(mx := Some mn)"
    have "other \<in> L \<and> G other = None \<and> degree (s other) = int (nat ?d)"
      using tab1 len Some unfolding tab_ok_def by blast
    then have oth: "other \<in> L" "G other = None" "degree (s other) = ?d"
      using d0 by simp_all
    have ot: "other \<in> tabset T" using len Some tabset_iff[of other ?T1] by auto
    with cur(3) have oc: "other \<noteq> cur" by auto
    have ll: "link_loop s T cur = link_loop ?s1 ?T2 mn"
      unfolding mn_def mx_def using d0 Some by (subst link_loop.simps) simp
    have le: "le64 (Priority (s mn)) (Priority (s mx))"
      and set2: "(mn = other \<and> mx = cur) \<or> (mn = cur \<and> mx = other)"
      unfolding mn_def mx_def using smaller_larger[OF nn[OF oth(1)] nn[OF cur(1)]] by blast+
    from set2 oc have mnmx: "mn \<noteq> mx" "mn \<in> {other, cur}" "mx \<in> {other, cur}"
      by auto
    have mnL: "mn \<in> L" "G mn = None" and mxL: "mx \<in> L" "G mx = None"
      using mnmx oth cur by auto
    note lk = link_ok[OF ok po mnL mxL mnmx(1) le]
    have ts2: "tabset ?T2 = tabset T - {other}"
      using tabset_clear[OF tab1 len Some] by simp
    have tab2: "tab_ok ?s1 L ?G1 ?T2"
      unfolding tab_ok_def
    proof (intro allI impI)
      fix dd r assume dd: "dd < length ?T2" and r: "?T2 ! dd = Some r"
      then have r1: "?T1 ! dd = Some r" "dd < length ?T1"
        using len by (auto simp: nth_list_update split: if_splits)
      then have rin: "r \<in> tabset ?T2" using dd r tabset_iff by blast
      with ts2 cur(3) have "r \<noteq> other" "r \<noteq> cur" by auto
      with mnmx have "r \<noteq> mn" "r \<noteq> mx" by auto
      moreover from tab1 r1 have "r \<in> L \<and> G r = None \<and> degree (s r) = int dd"
        unfolding tab_ok_def by blast
      ultimately show "r \<in> L \<and> ?G1 r = None \<and> degree (?s1 r) = int dd"
        using lk(3) by simp
    qed
    have mn2: "mn \<notin> tabset ?T2" using ts2 mnmx(2) cur(3) by auto
    have G1mn: "?G1 mn = None" using mnL mnmx(1) by simp
    from "1.IH"[OF d0 Some, folded mn_def mx_def, OF lk(1) lk(2) tab2 mnL(1) G1mn mn2]
    obtain s' T' w G' where res: "link_loop ?s1 ?T2 mn = Inr (s', T', w)"
      and post: "ll_post ?s1 L ?G1 ?T2 mn s' T' w G'"
      by blast
    have pr1: "\<And>x. Priority (?s1 x) = Priority (s x)" "\<And>x. Element (?s1 x) = Element (s x)"
      using lk(4) by blast+
    from post have p:
      "struct_ok {} s' L G'" "prio_ok s' L G'" "tab_ok s' L G' T'"
      "w \<in> tabset T'" "tabset T' \<subseteq> insert w (tabset ?T2)" "w \<in> insert mn (tabset ?T2)"
      "\<forall>x\<in>insert mn (tabset ?T2). x \<in> tabset T' \<or> le64 (Priority (s w)) (Priority (s x))"
      "\<forall>x\<in>L. ?G1 x = None \<longrightarrow> x \<notin> insert mn (tabset ?T2) \<longrightarrow> G' x = None"
      "\<forall>x\<in>L. G' x = None \<longrightarrow> ?G1 x = None"
      "\<forall>x\<in>insert mn (tabset ?T2). G' x = None \<longrightarrow> x \<in> tabset T'"
      "\<forall>x. Priority (s' x) = Priority (s x) \<and> Element (s' x) = Element (s x)"
      "\<forall>x. x \<notin> L \<longrightarrow> s' x = ?s1 x"
      unfolding ll_post_def pr1 by blast+
    have cover: "insert cur (tabset T) = insert mx (insert mn (tabset ?T2))"
      using ts2 set2 ot by auto
    have a2: "tabset T' \<subseteq> insert w (tabset T)" using p(5) ts2 by auto
    have a3: "w \<in> insert cur (tabset T)" using p(6) cover by auto
    have wmx: "le64 (Priority (s w)) (Priority (s mx))"
    proof (cases "mn \<in> tabset T'")
      case True
      with p(5) mn2 have "mn = w" by auto
      with le show ?thesis by simp
    next
      case False
      with p(7) have "le64 (Priority (s w)) (Priority (s mn))" by auto
      then show ?thesis using le by (rule le64_trans)
    qed
    have b: "\<forall>x\<in>insert cur (tabset T). x \<in> tabset T' \<or> le64 (Priority (s w)) (Priority (s x))"
      unfolding cover using p(7) wmx by auto
    have c: "\<forall>x\<in>L. G x = None \<longrightarrow> x \<notin> insert cur (tabset T) \<longrightarrow> G' x = None"
      unfolding cover using p(8) by auto
    have dd: "\<forall>x\<in>L. G' x = None \<longrightarrow> G x = None"
      using p(9) by (auto split: if_splits)
    have mxG': "G' mx \<noteq> None" using p(9) mxL(1) by auto
    have e: "\<forall>x\<in>insert cur (tabset T). G' x = None \<longrightarrow> x \<in> tabset T'"
      unfolding cover using p(10) mxG' by auto
    have f: "\<forall>x. x \<notin> L \<longrightarrow> s' x = s x" using p(12) lk(5) by auto
    have "ll_post s L G T cur s' T' w G'"
      unfolding ll_post_def using p(1,2,3,4) a2 a3 b c dd e p(11) f by blast
    with ll res show ?thesis by auto
  qed
qed

section \<open>The consolidation\<close>

lemma consolidate_ok:
  assumes "cons_inv s L G f T todo"
  shows "\<exists>s' f' T' G'. consolidate s f T todo = Inr (s', f', T') \<and> cons_post s L f s' f' T' G'"
  using assms
proof (induction todo arbitrary: s G f T)
  case Nil
  then have "cons_post s L f s f T G"
    unfolding cons_inv_def cons_post_def by auto
  then show ?case by auto
next
  case (Cons cur rest)
  from Cons.prems have ok: "struct_ok {} s L G" and po: "prio_ok s L G" and tab: "tab_ok s L G T"
    and dist: "distinct (cur # rest)"
    and todo: "\<forall>r\<in>set (cur # rest). r \<in> L \<and> G r = None \<and> r \<notin> tabset T"
    and all: "\<forall>r\<in>L. G r = None \<longrightarrow> r \<in> set (cur # rest) \<or> r \<in> tabset T"
    unfolding cons_inv_def by blast+
  from Cons.prems obtain m where m: "min_entry f = Some m" "m \<in> L"
    and mle: "\<forall>r\<in>tabset T. le64 (Priority (s m)) (Priority (s r))"
    and mwhere: "m \<in> tabset T \<or> (tabset T = {} \<and> m = cur)"
    unfolding cons_inv_def by auto
  from todo have cur: "cur \<in> L" "G cur = None" "cur \<notin> tabset T" by auto
  from link_loop_ok[OF ok po tab cur] obtain s1 T1 w G1
    where ll: "link_loop s T cur = Inr (s1, T1, w)" and post: "ll_post s L G T cur s1 T1 w G1"
    by blast
  from post have p:
    "struct_ok {} s1 L G1" "prio_ok s1 L G1" "tab_ok s1 L G1 T1"
    "w \<in> tabset T1" "tabset T1 \<subseteq> insert w (tabset T)" "w \<in> insert cur (tabset T)"
    "\<forall>x\<in>insert cur (tabset T). x \<in> tabset T1 \<or> le64 (Priority (s w)) (Priority (s x))"
    "\<forall>x\<in>L. G x = None \<longrightarrow> x \<notin> insert cur (tabset T) \<longrightarrow> G1 x = None"
    "\<forall>x\<in>L. G1 x = None \<longrightarrow> G x = None"
    "\<forall>x\<in>insert cur (tabset T). G1 x = None \<longrightarrow> x \<in> tabset T1"
    "\<forall>x. Priority (s1 x) = Priority (s x) \<and> Element (s1 x) = Element (s x)"
    "\<forall>x. x \<notin> L \<longrightarrow> s1 x = s x"
    unfolding ll_post_def by blast+
  have pr: "\<And>x. Priority (s1 x) = Priority (s x)" using p(11) by blast
  have nn: "\<And>x. x \<in> L \<Longrightarrow> Priority (s x) \<noteq> NaN" using po by (simp add: prio_ok_def)
  have wL: "w \<in> L" using tab_ok_tabset[OF p(3) p(4)] by simp
  define f1 where "f1 = (if le64 (Priority (s1 w)) (Priority (s1 m)) then f\<lparr>min_entry := Some w\<rparr> else f)"
  have step: "consolidate s f T (cur # rest) = consolidate s1 f1 T1 rest"
    by (simp add: ll m f1_def)
  have K: "m \<in> tabset T1 \<or> le64 (Priority (s w)) (Priority (s m))"
    using mwhere p(7) by auto
  have minv: "\<exists>m'. min_entry f1 = Some m' \<and> m' \<in> L
             \<and> (\<forall>r\<in>tabset T1. le64 (Priority (s1 m')) (Priority (s1 r)))
             \<and> m' \<in> tabset T1"
  proof (cases "le64 (Priority (s w)) (Priority (s m))")
    case True
    have "\<forall>r\<in>tabset T1. le64 (Priority (s w)) (Priority (s r))"
    proof
      fix r assume "r \<in> tabset T1"
      with p(5) have "r = w \<or> r \<in> tabset T" by auto
      then show "le64 (Priority (s w)) (Priority (s r))"
        using le64_refl[OF nn[OF wL]] mle True le64_trans by blast
    qed
    with True wL p(4) show ?thesis by (simp add: f1_def pr)
  next
    case False
    with K have mT: "m \<in> tabset T1" by simp
    from False nn[OF wL] nn[OF m(2)] have mw: "le64 (Priority (s m)) (Priority (s w))"
      using le64_total by blast
    have "\<forall>r\<in>tabset T1. le64 (Priority (s m)) (Priority (s r))"
    proof
      fix r assume "r \<in> tabset T1"
      with p(5) have "r = w \<or> r \<in> tabset T" by auto
      then show "le64 (Priority (s m)) (Priority (s r))" using mw mle by blast
    qed
    with False m mT show ?thesis by (simp add: f1_def pr)
  qed
  have t1: "\<forall>r\<in>set rest. r \<in> L \<and> G1 r = None \<and> r \<notin> tabset T1"
  proof
    fix r assume r: "r \<in> set rest"
    with todo dist have a: "r \<in> L" "G r = None" "r \<notin> tabset T" "r \<noteq> cur" by auto
    with p(8) have "G1 r = None" by auto
    moreover have "r \<notin> tabset T1" using p(5,6) a by auto
    ultimately show "r \<in> L \<and> G1 r = None \<and> r \<notin> tabset T1" using a by simp
  qed
  have t2: "\<forall>r\<in>L. G1 r = None \<longrightarrow> r \<in> set rest \<or> r \<in> tabset T1"
  proof (intro ballI impI)
    fix r assume r: "r \<in> L" "G1 r = None"
    with p(9) have "G r = None" by blast
    with all r have "r \<in> set rest \<or> r \<in> insert cur (tabset T)" by auto
    with p(10) r show "r \<in> set rest \<or> r \<in> tabset T1" by blast
  qed
  have inv1: "cons_inv s1 L G1 f1 T1 rest"
    unfolding cons_inv_def using p(1,2,3) dist t1 t2 minv by auto
  from Cons.IH[OF inv1] obtain s' f' T' G'
    where res: "consolidate s1 f1 T1 rest = Inr (s', f', T')"
      and cp: "cons_post s1 L f1 s' f' T' G'"
    by blast
  have "size_count f1 = size_count f" by (simp add: f1_def)
  with cp p(11,12) have "cons_post s L f s' f' T' G'"
    unfolding cons_post_def by auto
  with step res show ?case by auto
qed

section \<open>DequeueMin\<close>

lemma link_parent: "parent (link s mn mx a) = None \<Longrightarrow> parent (s a) = None"
  by (simp add: link_def Let_def split: if_splits)

lemma link_loop_parent:
  "link_loop s t c = Inr (s', t', c') \<Longrightarrow> parent (s' a) = None \<Longrightarrow> parent (s a) = None"
proof (induction s t c rule: link_loop.induct)
  case (1 s t c)
  from "1.prems" show ?case
    apply (subst (asm) link_loop.simps)
    apply (auto split: if_splits option.splits dest!: "1.IH" dest: link_parent simp del: link_loop.simps grow.simps)
    done
qed

lemma consolidate_parent:
  "consolidate s f t vs = Inr (s', f', t') \<Longrightarrow> parent (s' a) = None \<Longrightarrow> parent (s a) = None"
proof (induction vs arbitrary: s f t)
  case Nil
  then show ?case by simp
next
  case (Cons v vs)
  from Cons.prems show ?case
    by (auto split: sum.splits option.splits prod.splits dest!: Cons.IH dest: link_loop_parent simp del: link_loop.simps)
qed

lemma DequeueMin_table_ok:
  assumes h: "heap_ok s f L G" and nz: "size_count f \<noteq> 0" and fuel: "size_count f \<le> int fuel"
  shows "\<exists>m s' f' T' G'. min_entry f = Some m \<and> m \<in> L
      \<and> DequeueMin_table fuel s f = Inr (s', f', Some m, T') \<and> deq_post s L m s' f' T' G'"
proof -
  from h have ok: "struct_ok {} s L G" and po: "prio_ok s L G" and mo: "min_ok s f L G"
    and sz: "size_count f = int (card L)"
    by (simp_all add: heap_ok_def)
  note d = struct_okD[OF ok]
  from nz sz have "L \<noteq> {}" by auto
  with no_roots_empty[OF d(3) d(2)] have "sibs L G None \<noteq> {}" by blast
  with mo obtain m where m: "min_entry f = Some m" "m \<in> L" "G m = None"
    by (auto simp: min_ok_def split: option.splits)
  from fuel sz have fl: "card L \<le> fuel" by simp
  let ?f1 = "f\<lparr>size_count := size_count f - 1\<rparr>"
  let ?L = "L - {m}"
  from extract_ok[OF ok po m(2,3) fl, of ?f1] obtain s4 mp
    where ex: "extracted fuel s ?f1 m = Inr (s4, mp)"
      and ok4: "struct_ok {} s4 ?L (drop_G G m)" and po4: "prio_ok s4 ?L (drop_G G m)"
      and mp: "case mp of None \<Rightarrow> ?L = {} | Some c0 \<Rightarrow> c0 \<in> ?L \<and> drop_G G m c0 = None"
      and fr4: "\<forall>x. x \<notin> ?L \<longrightarrow> s4 x = s x"
      and keep4: "\<forall>x. Priority (s4 x) = Priority (s x) \<and> Element (s4 x) = Element (s x)"
      and mk4: "\<forall>x. marked (s4 x) = marked (s x)"
      and pa4: "\<forall>x. parent (s4 x) = (if x \<in> sibs L G (Some m) then None else parent (s x))"
    by blast
  have pG: "\<And>x. x \<in> L \<Longrightarrow> parent (s x) = G x" using d(4) by (simp add: parents_ok_def)
  have rt4: "\<forall>x. parent (s4 x) = None \<and> marked (s4 x) \<longrightarrow>
             marked (s x) \<and> (parent (s x) = None \<or> parent (s x) = Some m)"
    using mk4 pa4 pG by (auto split: if_splits)
  let ?u = "unlink_min s ?f1 m"
  from ex obtain s3 where cc: "clear_children fuel (fst ?u) m = Inr s3"
    and mg: "mergeLists s3 (min_entry (snd ?u)) (child (s3 m)) = (s4, mp)"
    by (auto simp: extracted_def Let_def split: sum.splits)
  define f3 where "f3 = (snd ?u)\<lparr>min_entry := mp\<rparr>"
  have "card L > 0" using m(2) d(1) by (auto simp: card_gt_0_iff)
  then have "int (card ?L) = int (card L) - 1"
    using m(2) d(1) by (simp add: card_Diff_singleton of_nat_diff)
  then have sz3: "size_count f3 = int (card ?L)"
    using sz by (simp add: f3_def unlink_min_def Let_def)
  have m3: "min_entry f3 = mp" by (simp add: f3_def)
  have unfold: "DequeueMin_table fuel s f =
      (case mp of
         None \<Rightarrow> Inr (s4, f3, Some m, [])
       | Some c0 \<Rightarrow>
           (case collect fuel s4 [] c0 of
              Inl e \<Rightarrow> Inl e
            | Inr toVisit \<Rightarrow>
                (case consolidate s4 f3 [] toVisit of
                   Inl e \<Rightarrow> Inl e
                 | Inr (s5, f5, treeTable) \<Rightarrow> Inr (s5, f5, Some m, treeTable))))"
    using nz m(1) cc mg
    by (cases mp) (simp_all add: DequeueMin_table_def Let_def f3_def cong: sum.case_cong)
  show ?thesis
  proof (cases mp)
    case None
    with mp have e: "?L = {}" by simp
    have "min_ok s4 f3 ?L (drop_G G m)"
      unfolding min_ok_def m3 None e by simp
    with ok4 po4 sz3 have "heap_ok s4 f3 ?L (drop_G G m)"
      unfolding heap_ok_def by blast
    then have "deq_post s L m s4 f3 [] (drop_G G m)"
      using e fr4 keep4 rt4 unfolding deq_post_def by blast
    with unfold None m show ?thesis by auto
  next
    case (Some c0)
    with mp have c0: "c0 \<in> ?L" "drop_G G m c0 = None" by simp_all
    let ?G = "drop_G G m"
    note d4 = struct_okD[OF ok4]
    have "is_ring s4 (sibs ?L ?G None)" using d4(5) c0 by (auto simp: rings_ok_def)
    from is_ring_from[OF this, of c0] c0 obtain as
      where r: "ring s4 (c0 # as)" "set (c0 # as) = sibs ?L ?G None" by auto
    have "length (c0 # as) = card (sibs ?L ?G None)" using card_ring[OF r(1)] r(2) by simp
    also have "\<dots> \<le> card ?L" using d4(1) by (intro card_mono) auto
    also have "\<dots> < card L" using d(1) m(2) by (intro card_Diff1_less)
    finally have "length as + 2 \<le> fuel" using fl by simp
    from collect_ring[OF r(1) this] have col: "collect fuel s4 [] c0 = Inr (c0 # as)" .
    have inv: "cons_inv s4 ?L ?G f3 [] (c0 # as)"
      unfolding cons_inv_def
      using ok4 po4 r c0 Some by (auto simp: tab_ok_def tabset_def m3 ring_Cons)
    from consolidate_ok[OF inv] obtain s' f' T' G'
      where res: "consolidate s4 f3 [] (c0 # as) = Inr (s', f', T')"
        and cp: "cons_post s4 ?L f3 s' f' T' G'"
      by blast
    from cp have q: "struct_ok {} s' ?L G'" "prio_ok s' ?L G'" "tab_ok s' ?L G' T'"
      "\<forall>r\<in>?L. G' r = None \<longrightarrow> r \<in> tabset T'"
      "size_count f' = size_count f3"
      "\<forall>x. Priority (s' x) = Priority (s4 x) \<and> Element (s' x) = Element (s4 x)"
      "\<forall>x. x \<notin> ?L \<longrightarrow> s' x = s4 x"
      unfolding cons_post_def by blast+
    from cp obtain m' where m': "min_entry f' = Some m'" "m' \<in> tabset T'"
      "\<forall>r\<in>tabset T'. le64 (Priority (s' m')) (Priority (s' r))"
      unfolding cons_post_def by blast
    have "min_ok s' f' ?L G'"
      unfolding min_ok_def using m' tab_ok_tabset[OF q(3) m'(2)] q(4) by auto
    with q(1,2,5) sz3 have "heap_ok s' f' ?L G'" by (simp add: heap_ok_def)
    moreover have "\<forall>x. Priority (s' x) = Priority (s x) \<and> Element (s' x) = Element (s x)"
      using q(6) keep4 by simp
    moreover have "\<forall>x. x \<notin> ?L \<longrightarrow> s' x = s x" using q(7) fr4 by simp
    moreover have "\<forall>x. parent (s' x) = None \<and> marked (s' x) \<longrightarrow>
             marked (s x) \<and> (parent (s x) = None \<or> parent (s x) = Some m)"
      using consolidate_parent[OF res] consolidate_marked[OF res] rt4 by blast
    ultimately have "deq_post s L m s' f' T' G'"
      unfolding deq_post_def using q(3,4) by blast
    with unfold Some col res m show ?thesis by auto
  qed
qed

section \<open>One cut\<close>

lemma unlink_entry_eq: "unlink_entry s e = (if next (s e) \<noteq> e then splice_out s e else s)"
  by (simp add: unlink_entry_def Let_def splice_out_alt eq_commute[of e])

lemma unlink_entry_read [simp]:
  "degree (unlink_entry s e x) = degree (s x)"
  "marked (unlink_entry s e x) = marked (s x)"
  "parent (unlink_entry s e x) = parent (s x)"
  "child (unlink_entry s e x) = child (s x)"
  "Element (unlink_entry s e x) = Element (s x)"
  "Priority (unlink_entry s e x) = Priority (s x)"
  by (simp_all add: unlink_entry_eq)

lemma repoint_child_read [simp]:
  "child (repoint_child s e p x) =
     (if x = p \<and> child (s p) = Some e then (if next (s e) \<noteq> e then Some (next (s e)) else None)
      else child (s x))"
  "degree (repoint_child s e p x) = degree (s x)"
  "marked (repoint_child s e p x) = marked (s x)"
  "parent (repoint_child s e p x) = parent (s x)"
  "next (repoint_child s e p x) = next (s x)"
  "prev (repoint_child s e p x) = prev (s x)"
  "Element (repoint_child s e p x) = Element (s x)"
  "Priority (repoint_child s e p x) = Priority (s x)"
  by (simp_all add: repoint_child_def)

lemma repoint_child_frame: "x \<noteq> p \<Longrightarrow> repoint_child s e p x = s x"
  by (simp add: repoint_child_def set_child_def)

lemma alone_alt: "set_next (set_prev s a a) a a = alone s a"
  by (auto simp: fun_eq_iff set_next_def set_prev_def alone_def)

lemma cut_step_eq:
  "cut_step s f e p =
     (fst (mergeLists (alone (set_degree (repoint_child (unlink_entry s e) e p) p (degree (s p) - 1)) e)
            (min_entry f) (Some e)),
      f\<lparr>min_entry := snd (mergeLists
            (alone (set_degree (repoint_child (unlink_entry s e) e p) p (degree (s p) - 1)) e)
            (min_entry f) (Some e))\<rparr>)"
  by (simp add: cut_step_def Let_def alone_alt)

lemma set_degree_frame: "x \<noteq> p \<Longrightarrow> set_degree s p v x = s x"
  by (simp add: set_degree_def)

lemma sibs_cut_None:
  "e \<in> L \<Longrightarrow> sibs L (G(e := None)) None = insert e (sibs L G None)"
  by (auto simp: sibs_def)

lemma sibs_cut_Some:
  "G e = Some p \<Longrightarrow>
   sibs L (G(e := None)) (Some q) = (if q = p then sibs L G (Some p) - {e} else sibs L G (Some q))"
  by (auto simp: sibs_def)

lemma cut_step_ok:
  assumes ok: "struct_ok X s L G" and e: "e \<in> L" "G e = Some p"
    and m: "min_entry f = Some m" "m \<in> L" "G m = None"
  shows "struct_ok (insert e X) (fst (cut_step s f e p)) L (G(e := None))"
    and "\<forall>x. Priority (fst (cut_step s f e p) x) = Priority (s x)
          \<and> Element (fst (cut_step s f e p) x) = Element (s x)
          \<and> marked (fst (cut_step s f e p) x) = marked (s x)
          \<and> parent (fst (cut_step s f e p) x) = parent (s x)"
    and "\<forall>x. x \<notin> L \<longrightarrow> fst (cut_step s f e p) x = s x"
    and "snd (cut_step s f e p) =
           f\<lparr>min_entry := Some (if lt64 (Priority (s m)) (Priority (s e)) then m else e)\<rparr>"
proof -
  let ?G = "G(e := None)"
  define R where "R = sibs L G None"
  define C where "C = sibs L G (Some p)"
  note d = struct_okD[OF ok]
  have ring_s: "\<And>po. sibs L G po \<noteq> {} \<Longrightarrow> is_ring s (sibs L G po)"
    using d(5) by (simp add: rings_ok_def)
  have pL: "p \<in> L" using d(2) e by (auto simp: closed_G_def)
  have ep: "e \<noteq> p"
  proof
    assume "e = p"
    with e wf_not_refl[OF d(3), of e] show False by simp
  qed
  have eX: "e \<notin> X" using d(4) e(2) by (auto simp: parents_ok_def)
  have eC: "e \<in> C" and mR: "m \<in> R" using e m by (simp_all add: C_def R_def)
  have ringC: "is_ring s C" using ring_s[of "Some p"] eC unfolding C_def by auto
  have ringR: "is_ring s R" using ring_s[of None] mR unfolding R_def by auto
  have dRC: "R \<inter> C = {}" by (auto simp: R_def C_def)
  have eR: "e \<notin> R" using e(2) by (auto simp: R_def)
  have ne: "(next (s e) \<noteq> e) = (C \<noteq> {e})" using is_ring_next_self[OF ringC eC] by simp
  have pe: "(prev (s e) \<noteq> e) = (C \<noteq> {e})" using is_ring_prev_self[OF ringC eC] by simp
  have nC: "next (s e) \<in> C" "prev (s e) \<in> C"
    using is_ring_next_in[OF ringC eC] is_ring_prev_in[OF ringC eC] by blast+
  let ?s2 = "unlink_entry s e"
  have s2: "?s2 = (if C \<noteq> {e} then splice_out s e else s)"
    unfolding unlink_entry_eq ne ..
  have fr2: "\<And>x. x \<notin> C \<Longrightarrow> ?s2 x = s x"
  proof -
    fix x assume "x \<notin> C"
    with nC have "x \<noteq> prev (s e)" "x \<noteq> next (s e)" by auto
    then show "?s2 x = s x" by (simp add: s2 splice_out_frame)
  qed
  have ringC2: "C \<noteq> {e} \<Longrightarrow> is_ring ?s2 (C - {e})"
    using is_ring_splice_out[OF ringC eC] by (simp add: s2)
  have n2: "next (?s2 e) = next (s e)" using pe by (auto simp: s2)
  let ?s4 = "set_degree (repoint_child ?s2 e p) p (degree (s p) - 1)"
  let ?s6 = "alone ?s4 e"
  let ?r = "mergeLists ?s6 (min_entry f) (Some e)"
  let ?s7 = "fst ?r"
  have s7: "fst (cut_step s f e p) = ?s7"
    and f7: "snd (cut_step s f e p) = f\<lparr>min_entry := snd ?r\<rparr>"
    by (simp_all add: cut_step_eq)
  have rd: "\<And>x. parent (?s7 x) = parent (s x)" "\<And>x. Priority (?s7 x) = Priority (s x)"
    "\<And>x. Element (?s7 x) = Element (s x)" "\<And>x. marked (?s7 x) = marked (s x)"
    "\<And>x. degree (?s7 x) = (if x = p then degree (s p) - 1 else degree (s x))"
    "\<And>x. child (?s7 x) =
       (if x = p \<and> child (s p) = Some e then (if C \<noteq> {e} then Some (next (s e)) else None)
        else child (s x))"
    by (simp_all add: n2 ne)
  have lk6: "\<And>x. x \<noteq> e \<Longrightarrow> next (?s6 x) = next (?s2 x) \<and> prev (?s6 x) = prev (?s2 x)"
    by simp
  have fr6: "\<And>x. x \<notin> C \<Longrightarrow> x \<noteq> p \<Longrightarrow> ?s6 x = s x"
  proof -
    fix x assume x: "x \<notin> C" "x \<noteq> p"
    with eC have "x \<noteq> e" by auto
    with x fr2[of x] show "?s6 x = s x"
      by (simp add: alone_frame set_degree_frame repoint_child_frame)
  qed
  have ringR6: "is_ring ?s6 R"
  proof (rule is_ring_frame[OF ringR], intro ballI)
    fix x assume x: "x \<in> R"
    with dRC eR have "x \<notin> C" "x \<noteq> e" by auto
    with lk6[of x] fr2[of x] show "next (?s6 x) = next (s x) \<and> prev (?s6 x) = prev (s x)"
      by simp
  qed
  have ringe6: "is_ring ?s6 {e}" by (rule is_ring_single) simp_all
  have ringCe6: "C \<noteq> {e} \<Longrightarrow> is_ring ?s6 (C - {e})"
  proof -
    assume "C \<noteq> {e}"
    from ringC2[OF this] show "is_ring ?s6 (C - {e})"
      by (rule is_ring_frame) (use lk6 in auto)
  qed
  have xr: "case min_entry f of None \<Rightarrow> R = {} | Some a \<Rightarrow> a \<in> R \<and> is_ring ?s6 R"
    using m(1) mR ringR6 by simp
  have yr: "case Some e of None \<Rightarrow> {e} = {} | Some b \<Rightarrow> b \<in> {e} \<and> is_ring ?s6 {e}"
    using ringe6 by simp
  have dj: "R \<inter> {e} = {}" using eR by simp
  note mr = merge_rings[OF xr yr dj]
  have ringR7: "is_ring ?s7 (insert e R)" using mr(1) by simp
  have fr7: "\<And>x. x \<notin> insert e R \<Longrightarrow> ?s7 x = ?s6 x" using mr(3) by simp
  have ringC7: "C \<noteq> {e} \<Longrightarrow> is_ring ?s7 (C - {e})"
  proof -
    assume "C \<noteq> {e}"
    from ringCe6[OF this] show "is_ring ?s7 (C - {e})"
      by (rule is_ring_same) (use fr7 dRC in blast)
  qed
  have sN: "sibs L ?G None = insert e R" unfolding R_def using e(1) by (rule sibs_cut_None)
  have sS: "\<And>q. sibs L ?G (Some q) = (if q = p then C - {e} else sibs L G (Some q))"
    unfolding C_def using e(2) by (rule sibs_cut_Some)
  have 1: "finite L" using d(1) .
  have 2: "closed_G L ?G" using d(2) by (auto simp: closed_G_def)
  have "rel_G L ?G \<subseteq> rel_G L G" by (auto simp: rel_G_def split: if_splits)
  then have 3: "wf (rel_G L ?G)" using d(3) by (rule wf_subset[rotated])
  have 4: "parents_ok (insert e X) ?s7 L ?G"
    using d(4) unfolding parents_ok_def rd by auto
  have 5: "rings_ok ?s7 L ?G"
    unfolding rings_ok_def
  proof (intro allI impI)
    fix po assume nem: "sibs L ?G po \<noteq> {}"
    show "is_ring ?s7 (sibs L ?G po)"
    proof (cases po)
      case None
      with ringR7 sN show ?thesis by simp
    next
      case (Some q)
      show ?thesis
      proof (cases "q = p")
        case True
        with Some sS nem have "C - {e} \<noteq> {}" "sibs L ?G po = C - {e}" by simp_all
        with ringC7 show ?thesis by auto
      next
        case False
        with Some sS nem have eq: "sibs L ?G po = sibs L G (Some q)" "sibs L G (Some q) \<noteq> {}"
          by simp_all
        from ring_s[OF eq(2)] have "is_ring s (sibs L G (Some q))" .
        then have "is_ring ?s7 (sibs L G (Some q))"
        proof (rule is_ring_frame, intro ballI)
          fix x assume x: "x \<in> sibs L G (Some q)"
          with False e(2) have a: "x \<notin> insert e R" "x \<notin> C" "x \<noteq> e" by (auto simp: R_def C_def)
          from fr7[OF a(1)] lk6[OF a(3)] fr2[OF a(2)]
          show "next (?s7 x) = next (s x) \<and> prev (?s7 x) = prev (s x)" by simp
        qed
        with eq show ?thesis by simp
      qed
    qed
  qed
  have chp: "case child (s p) of None \<Rightarrow> C = {} | Some c \<Rightarrow> c \<in> C"
    using d(6) pL unfolding childs_ok_def C_def by blast
  have nxt: "C \<noteq> {e} \<Longrightarrow> next (s e) \<in> C - {e}" using nC ne by auto
  have 6: "childs_ok ?s7 L ?G"
    unfolding childs_ok_def
  proof
    fix q assume q: "q \<in> L"
    show "case child (?s7 q) of None \<Rightarrow> sibs L ?G (Some q) = {} | Some c \<Rightarrow> c \<in> sibs L ?G (Some q)"
    proof (cases "q = p")
      case True
      show ?thesis
      proof (cases "child (s p) = Some e")
        case ce: True
        show ?thesis
        proof (cases "C = {e}")
          case True
          then have "C - {e} = {}" by simp
          with True ce \<open>q = p\<close> show ?thesis unfolding rd sS by simp
        next
          case False
          with nxt ce \<open>q = p\<close> show ?thesis unfolding rd sS by simp
        qed
      next
        case False
        with chp eC obtain c where "child (s p) = Some c" "c \<in> C" "c \<noteq> e"
          by (cases "child (s p)") auto
        with \<open>q = p\<close> show ?thesis unfolding rd sS by simp
      qed
    next
      case False
      with d(6) q show ?thesis unfolding rd sS childs_ok_def by auto
    qed
  qed
  have fC: "finite C" using d(1) by (auto simp: C_def sibs_def)
  have "card (C - {e}) = card C - 1" using eC fC by (simp add: card_Diff_singleton)
  moreover have "card C > 0" using eC fC by (auto simp: card_gt_0_iff)
  ultimately have cd: "int (card (C - {e})) = int (card C) - 1" by (simp add: of_nat_diff)
  have 7: "degrees_ok ?s7 L ?G"
    using d(7) pL cd unfolding degrees_ok_def rd sS by (auto simp: C_def)
  show "struct_ok (insert e X) (fst (cut_step s f e p)) L ?G"
    unfolding s7 using 1 2 3 4 5 6 7 by (simp add: struct_ok_def)
  show "\<forall>x. Priority (fst (cut_step s f e p) x) = Priority (s x)
          \<and> Element (fst (cut_step s f e p) x) = Element (s x)
          \<and> marked (fst (cut_step s f e p) x) = marked (s x)
          \<and> parent (fst (cut_step s f e p) x) = parent (s x)"
    unfolding s7 using rd by blast
  show "\<forall>x. x \<notin> L \<longrightarrow> fst (cut_step s f e p) x = s x"
  proof (intro allI impI)
    fix x assume "x \<notin> L"
    with e(1) m(2) pL have a: "x \<notin> insert e R" "x \<notin> C" "x \<noteq> p" by (auto simp: R_def C_def)
    from fr7[OF a(1)] fr6[OF a(2,3)] show "fst (cut_step s f e p) x = s x"
      unfolding s7 by simp
  qed
  show "snd (cut_step s f e p) =
           f\<lparr>min_entry := Some (if lt64 (Priority (s m)) (Priority (s e)) then m else e)\<rparr>"
    unfolding f7 using m(1) by (simp add: mergeLists_snd)
qed

section \<open>cutNode\<close>

lemma anc_self: "e \<in> anc L G e"
  by (simp add: anc_def)

lemma anc_subset: "closed_G L G \<Longrightarrow> e \<in> L \<Longrightarrow> anc L G e \<subseteq> L"
proof
  fix a assume cl: "closed_G L G" and e: "e \<in> L" and "a \<in> anc L G e"
  then have "(a, e) \<in> (rel_G L G)\<^sup>*" by (simp add: anc_def)
  then show "a \<in> L"
    using e cl by (cases rule: converse_rtranclE) (auto simp: closed_G_def)
qed

lemma anc_parent:
  assumes wf: "wf (rel_G L G)" and e: "e \<in> L" "G e = Some p"
  shows "anc L (G(e := None)) p \<subseteq> anc L G e - {e}"
proof
  fix a assume "a \<in> anc L (G(e := None)) p"
  then have "(a, p) \<in> (rel_G L (G(e := None)))\<^sup>*" by (simp add: anc_def)
  moreover have "rel_G L (G(e := None)) \<subseteq> rel_G L G"
    by (auto simp: rel_G_def split: if_splits)
  ultimately have ap: "(a, p) \<in> (rel_G L G)\<^sup>*" using rtrancl_mono by blast
  have pe: "(p, e) \<in> rel_G L G" using e by simp
  from ap pe have ae: "(a, e) \<in> (rel_G L G)\<^sup>*" by (rule rtrancl_into_rtrancl)
  have "a \<noteq> e"
  proof
    assume "a = e"
    with ap pe have "(e, e) \<in> (rel_G L G)\<^sup>+" by (simp add: rtrancl_into_trancl1)
    with wf_trancl[OF wf] show False by (metis wf_not_refl)
  qed
  with ae show "a \<in> anc L G e - {e}" by (simp add: anc_def)
qed

lemma struct_ok_fields:
  assumes ok: "struct_ok X s L G"
    and same: "\<forall>x\<in>L. next (s' x) = next (s x) \<and> prev (s' x) = prev (s x)
       \<and> child (s' x) = child (s x) \<and> degree (s' x) = degree (s x)"
    and par: "\<forall>x\<in>L. x \<notin> X \<longrightarrow> parent (s' x) = parent (s x)"
  shows "struct_ok X s' L G"
proof -
  note d = struct_okD[OF ok]
  have 4: "parents_ok X s' L G" using d(4) par by (simp add: parents_ok_def)
  have 5: "rings_ok s' L G"
    unfolding rings_ok_def
  proof (intro allI impI)
    fix po assume "sibs L G po \<noteq> {}"
    with d(5) have "is_ring s (sibs L G po)" by (simp add: rings_ok_def)
    then show "is_ring s' (sibs L G po)"
      by (rule is_ring_frame) (use same in auto)
  qed
  have 6: "childs_ok s' L G" using d(6) same by (simp add: childs_ok_def)
  have 7: "degrees_ok s' L G" using d(7) same by (simp add: degrees_ok_def)
  from d(1,2,3) 4 5 6 7 show ?thesis by (simp add: struct_ok_def)
qed

lemma struct_ok_settle:
  assumes ok: "struct_ok (insert e X) s L G"
  shows "struct_ok X (set_parent s e None) L G"
proof -
  note d = struct_okD[OF ok]
  have 4: "parents_ok X (set_parent s e None) L G"
    using d(4) by (auto simp: parents_ok_def)
  have "struct_ok (insert e X) (set_parent s e None) L G"
    by (rule struct_ok_fields[OF ok]) simp_all
  with 4 show ?thesis by (simp add: struct_ok_def)
qed

lemma min_ok_same:
  "min_ok s f L G \<Longrightarrow> \<forall>x. Priority (s' x) = Priority (s x) \<Longrightarrow> min_ok s' f L G"
  by (simp add: min_ok_def split: option.splits)

lemma cutNode_ok:
  assumes "struct_ok X s L G" and "e \<in> L" and "\<forall>a\<in>anc L G e. a \<notin> X"
    and "min_ok s f L G" and "\<forall>a\<in>L. Priority (s a) \<noteq> NaN"
    and "card (anc L G e) \<le> fuel"
  shows "\<exists>s' f' G'. cutNode fuel s f e = Inr (s', f') \<and> cut_post X s L G e s' f' G'"
  using assms
proof (induction fuel arbitrary: X s f G e)
  case 0
  note d = struct_okD[OF "0.prems"(1)]
  have "finite (anc L G e)" using anc_subset[OF d(2) "0.prems"(2)] d(1) by (rule finite_subset)
  with "0.prems"(6) anc_self[of e L G] show ?case by auto
next
  case (Suc n)
  note ok = Suc.prems(1) and e = Suc.prems(2) and ax = Suc.prems(3)
    and mo = Suc.prems(4) and nn = Suc.prems(5) and fl = Suc.prems(6)
  note d = struct_okD[OF ok]
  let ?s1 = "set_marked s e False"
  have eX: "e \<notin> X" using ax anc_self[of e L G] by blast
  have ok1: "struct_ok X ?s1 L G" by (rule struct_ok_fields[OF ok]) simp_all
  have mo1: "min_ok ?s1 f L G" using mo by (rule min_ok_same) simp
  have par: "parent (?s1 e) = G e" using d(4) e eX by (simp add: parents_ok_def)
  show ?case
  proof (cases "G e")
    case None
    have "cutNode (Suc n) s f e = Inr (?s1, f)" using par None by simp
    moreover have "cut_post X s L G e ?s1 f G"
      unfolding cut_post_def using ok1 mo1 None e
      by (auto simp: set_marked_def)
    ultimately show ?thesis by blast
  next
    case (Some p)
    have pL: "p \<in> L" using d(2) e Some by (auto simp: closed_G_def)
    have "sibs L G None \<noteq> {}" using no_roots_empty[OF d(3) d(2)] e by blast
    with mo obtain m where m: "min_entry f = Some m" "m \<in> L" "G m = None"
      and least: "\<forall>r\<in>L. G r = None \<longrightarrow> le64 (Priority (s m)) (Priority (s r))"
      by (auto simp: min_ok_def split: option.splits)
    let ?c = "cut_step ?s1 f e p"
    let ?G1 = "G(e := None)"
    note cs = cut_step_ok[OF ok1 e Some m]
    have pr7: "\<And>x. Priority (fst ?c x) = Priority (s x)" "\<And>x. Element (fst ?c x) = Element (s x)"
      using cs(2) by simp_all
    have fr7: "\<forall>x. x \<notin> L \<longrightarrow> fst ?c x = s x"
      using cs(3) e by (auto simp: set_marked_def)
    define m1 where "m1 = (if lt64 (Priority (s m)) (Priority (s e)) then m else e)"
    have f1: "snd ?c = f\<lparr>min_entry := Some m1\<rparr>" using cs(4) by (simp add: m1_def)
    have em: "e \<noteq> m" using Some m(3) by auto
    have pe: "p \<noteq> e" using wf_not_refl[OF d(3), of e] e Some by auto
    have pa: "p \<in> anc L G e" using e Some by (auto simp: anc_def)
    have mk7: "\<And>x. marked (fst ?c x) = (x \<noteq> e \<and> marked (s x))"
      using cs(2) by simp
    have mo7: "min_ok (fst ?c) (snd ?c) L ?G1"
    proof (cases "lt64 (Priority (s m)) (Priority (s e))")
      case True
      then have "le64 (Priority (s m)) (Priority (s e))" by (rule lt64_le64)
      with True least m em show ?thesis
        unfolding min_ok_def f1 m1_def pr7 by auto
    next
      case False
      with nn e m(2) have le: "le64 (Priority (s e)) (Priority (s m))" by (simp add: not_lt64)
      have "\<forall>r\<in>L. G r = None \<longrightarrow> le64 (Priority (s e)) (Priority (s r))"
        using least le le64_trans by blast
      with False e nn le64_refl show ?thesis
        unfolding min_ok_def f1 m1_def pr7 by auto
    qed
    have unf: "cutNode (Suc n) s f e =
        (if marked (fst ?c p)
         then (case cutNode n (fst ?c) (snd ?c) p of
                 Inl err \<Rightarrow> Inl err
               | Inr (s8, f2) \<Rightarrow> Inr (set_parent s8 e None, f2))
         else Inr (set_parent (set_marked (fst ?c) p True) e None, snd ?c))"
      using par Some by (simp add: Let_def)
    show ?thesis
    proof (cases "marked (fst ?c p)")
      case False
      let ?s' = "set_parent (set_marked (fst ?c) p True) e None"
      have "struct_ok (insert e X) (set_marked (fst ?c) p True) L ?G1"
        by (rule struct_ok_fields[OF cs(1)]) simp_all
      then have a: "struct_ok X ?s' L ?G1" by (rule struct_ok_settle)
      have b: "min_ok ?s' (snd ?c) L ?G1" using mo7 by (rule min_ok_same) simp
      have c: "\<forall>x. x \<notin> L \<longrightarrow> ?s' x = s x"
        using fr7 e pL by (auto simp: set_parent_def set_marked_def)
      have m1: "\<forall>x. marked (?s' x) \<longrightarrow> x \<noteq> e \<and> (marked (s x) \<or> x \<in> anc L G e)"
        using pe pa by (auto simp: mk7)
      have m2: "\<forall>x\<in>L. marked (?s' x) \<and> ?G1 x = None \<longrightarrow> G x = None"
        using pe by (auto simp: mk7)
      have "cut_post X s L G e ?s' (snd ?c) ?G1"
        unfolding cut_post_def using a b c pr7 m1 m2 by simp
      with unf False show ?thesis by auto
    next
      case True
      have ax1: "\<forall>a\<in>anc L ?G1 p. a \<notin> insert e X"
        using anc_parent[OF d(3) e Some] ax by auto
      have fin: "finite (anc L G e)" using anc_subset[OF d(2) e] d(1) by (rule finite_subset)
      have "anc L ?G1 p \<subset> anc L G e"
        using anc_parent[OF d(3) e Some] anc_self[of e L G] by auto
      from psubset_card_mono[OF fin this] fl have cd: "card (anc L ?G1 p) \<le> n" by simp
      have nn7: "\<forall>a\<in>L. Priority (fst ?c a) \<noteq> NaN" using nn by (simp add: pr7)
      from Suc.IH[OF cs(1) pL ax1 mo7 nn7 cd] obtain s8 f2 G2
        where res: "cutNode n (fst ?c) (snd ?c) p = Inr (s8, f2)"
          and cp: "cut_post (insert e X) (fst ?c) L ?G1 p s8 f2 G2"
        by blast
      have q: "struct_ok (insert e X) s8 L G2" "\<forall>x\<in>L. G2 x = ?G1 x \<or> G2 x = None"
        "min_ok s8 f2 L G2"
        "\<forall>x. Priority (s8 x) = Priority (fst ?c x) \<and> Element (s8 x) = Element (fst ?c x)"
        "\<forall>x. x \<notin> L \<longrightarrow> s8 x = fst ?c x"
        "\<forall>x. marked (s8 x) \<longrightarrow> x \<noteq> p \<and> (marked (fst ?c x) \<or> x \<in> anc L ?G1 p)"
        "\<forall>x\<in>L. marked (s8 x) \<and> G2 x = None \<longrightarrow> ?G1 x = None"
        using cp unfolding cut_post_def by simp_all
      let ?s' = "set_parent s8 e None"
      have a: "struct_ok X ?s' L G2" using q(1) by (rule struct_ok_settle)
      have g: "G2 e = None" using struct_okD(4)[OF q(1)] by (simp add: parents_ok_def)
      have h: "\<forall>x\<in>L. G2 x = G x \<or> G2 x = None" using q(2) by (auto split: if_splits)
      have b: "min_ok ?s' f2 L G2" using q(3) by (rule min_ok_same) simp
      have c: "\<forall>x. x \<notin> L \<longrightarrow> ?s' x = s x"
        using q(5) fr7 e by (auto simp: set_parent_def)
      have pr: "\<forall>x. Priority (?s' x) = Priority (s x) \<and> Element (?s' x) = Element (s x)"
        using q(4) pr7 by simp
      have m1: "\<forall>x. marked (?s' x) \<longrightarrow> x \<noteq> e \<and> (marked (s x) \<or> x \<in> anc L G e)"
        using q(6) anc_parent[OF d(3) e Some] by (auto simp: mk7)
      have m2: "\<forall>x\<in>L. marked (?s' x) \<and> G2 x = None \<longrightarrow> G x = None"
      proof (intro ballI impI)
        fix x assume x: "x \<in> L" "marked (?s' x) \<and> G2 x = None"
        with m1 have "x \<noteq> e" by blast
        moreover from x q(7) have "?G1 x = None" by simp
        ultimately show "G x = None" by simp
      qed
      have "cut_post X s L G e ?s' f2 G2"
        unfolding cut_post_def using a g h b c pr m1 m2 by blast
      with unf True res show ?thesis by auto
    qed
  qed
qed

section \<open>decreaseKeyUnchecked\<close>

lemma cutNode_size: "cutNode fuel s f e = Inr (s', f') \<Longrightarrow> size_count f' = size_count f"
proof (induction fuel arbitrary: s f e s' f')
  case 0
  then show ?case by simp
next
  case (Suc n)
  have sz: "\<And>p. size_count (snd (cut_step (set_marked s e False) f e p)) = size_count f"
    by (simp add: cut_step_eq)
  from Suc.prems show ?case
    by (auto simp: Let_def sz split: option.splits if_splits sum.splits dest!: Suc.IH)
qed

lemma above_root:
  assumes wf: "wf (rel_G L G)" and cl: "closed_G L G" and po: "prio_ok s L G" and a: "a \<in> L"
  shows "\<exists>r\<in>L. G r = None \<and> le64 (Priority (s r)) (Priority (s a))"
  using wf a
proof (induction a rule: wf_induct_rule)
  case (less a)
  show ?case
  proof (cases "G a")
    case None
    with less.prems po show ?thesis by (auto simp: prio_ok_def intro: le64_refl)
  next
    case (Some p)
    with less.prems cl have p: "p \<in> L" "(p, a) \<in> rel_G L G" by (auto simp: closed_G_def)
    from less.IH[OF p(2) p(1)] obtain r where r: "r \<in> L" "G r = None"
      "le64 (Priority (s r)) (Priority (s p))" by blast
    from po less.prems Some have "le64 (Priority (s p)) (Priority (s a))" by (simp add: prio_ok_def)
    with r show ?thesis using le64_trans by blast
  qed
qed

lemma min_least:
  assumes h: "heap_ok s f L G" and m: "min_entry f = Some m" and a: "a \<in> L"
  shows "le64 (Priority (s m)) (Priority (s a))"
proof -
  from h have ok: "struct_ok {} s L G" and po: "prio_ok s L G" and mo: "min_ok s f L G"
    by (simp_all add: heap_ok_def)
  note d = struct_okD[OF ok]
  from above_root[OF d(3) d(2) po a] obtain r where r: "r \<in> L" "G r = None"
    "le64 (Priority (s r)) (Priority (s a))" by blast
  from mo m r have "le64 (Priority (s m)) (Priority (s r))" by (simp add: min_ok_def)
  then show ?thesis using r(3) by (rule le64_trans)
qed

lemma heap_ok_nonempty:
  assumes h: "heap_ok s f L G" and a: "a \<in> L"
  shows "\<exists>m. min_entry f = Some m \<and> m \<in> L \<and> G m = None"
proof -
  from h have ok: "struct_ok {} s L G" and mo: "min_ok s f L G" by (simp_all add: heap_ok_def)
  note d = struct_okD[OF ok]
  have "sibs L G None \<noteq> {}" using no_roots_empty[OF d(3) d(2)] a by blast
  with mo show ?thesis by (auto simp: min_ok_def split: option.splits)
qed

lemma anc_ancestor:
  assumes "parents_ok {} s L G" and "x \<in> anc L G e" and "x \<noteq> e"
  shows "ancestor s x e"
proof -
  have "rel_G L G \<subseteq> parent_rel s"
    using assms(1) by (auto simp: parents_ok_def parent_rel_def)
  moreover have "(x, e) \<in> (rel_G L G)\<^sup>+"
    using assms(2,3) by (simp add: anc_def rtrancl_eq_or_trancl)
  ultimately show ?thesis unfolding ancestor_def using trancl_mono by blast
qed

lemma dk_finish:
  assumes h: "heap_ok s f L G" and e: "e \<in> L" and pn: "p \<noteq> NaN"
    and r: "(case parent (set_Priority s e p e) of
         None \<Rightarrow> Inr (set_Priority s e p, f)
       | Some q \<Rightarrow> if le64 (Priority (set_Priority s e p e)) (Priority (set_Priority s e p q))
                   then cutNode fuel (set_Priority s e p) f e
                   else Inr (set_Priority s e p, f)) = Inr (s2, f2)"
    and ok2: "struct_ok {} s2 L G2" and po2: "prio_ok s2 L G2"
    and pr2: "\<And>x. Priority (s2 x) = (if x = e then p else Priority (s x))"
    and el2: "\<And>x. Element (s2 x) = Element (s x)"
    and fr2: "\<And>x. x \<notin> L \<Longrightarrow> s2 x = s x"
    and sz2: "size_count f2 = size_count f"
    and m2: "min_entry f2 = Some m2" "m2 \<in> L" "G2 m2 = None"
    and least2: "\<And>r. r \<in> L \<Longrightarrow> G2 r = None \<Longrightarrow> r \<noteq> e \<Longrightarrow> le64 (Priority (s2 m2)) (Priority (s2 r))"
    and nonroot: "G2 e \<noteq> None \<Longrightarrow> \<not> le64 p (Priority (s2 m2))"
    and k1: "\<And>x. marked (s2 x) \<Longrightarrow> marked (s x) \<or> (x \<in> anc L G e \<and> x \<noteq> e)"
    and k2: "\<And>x. x \<in> L \<Longrightarrow> marked (s2 x) \<Longrightarrow> G2 x = None \<Longrightarrow> G x = None"
    and k3: "\<And>x. x \<in> L \<Longrightarrow> G2 x = G x \<or> G2 x = None"
  shows "\<exists>s' f' G'. decreaseKeyUnchecked fuel s f e p = Inr (s', f') \<and> dk_post s f L e p s' f' G'"
proof -
  from h have ok: "struct_ok {} s L G" and po: "prio_ok s L G"
    and sz: "size_count f = int (card L)"
    by (simp_all add: heap_ok_def)
  note d = struct_okD[OF ok]
  have nn: "\<And>x. x \<in> L \<Longrightarrow> Priority (s x) \<noteq> NaN" using po by (simp add: prio_ok_def)
  let ?f' = "if le64 (Priority (s2 e)) (Priority (s2 m2)) then f2\<lparr>min_entry := Some e\<rparr> else f2"
  have res: "decreaseKeyUnchecked fuel s f e p = Inr (s2, ?f')"
    unfolding decreaseKeyUnchecked_def Let_def using r m2(1) by simp
  have pe: "Priority (s2 e) = p" using pr2 by simp
  have pm2: "Priority (s2 m2) \<noteq> NaN" using pr2[of m2] nn[OF m2(2)] pn by simp
  have mo': "min_ok s2 ?f' L G2"
  proof (cases "le64 p (Priority (s2 m2))")
    case True
    with nonroot have ge: "G2 e = None" by blast
    have "\<forall>r\<in>L. G2 r = None \<longrightarrow> le64 (Priority (s2 e)) (Priority (s2 r))"
    proof (intro ballI impI)
      fix r assume r: "r \<in> L" "G2 r = None"
      show "le64 (Priority (s2 e)) (Priority (s2 r))"
      proof (cases "r = e")
        case True
        then show ?thesis using pe pn le64_refl by simp
      next
        case False
        with least2 r have "le64 (Priority (s2 m2)) (Priority (s2 r))" by blast
        with True pe show ?thesis using le64_trans by simp
      qed
    qed
    with True ge e show ?thesis by (simp add: min_ok_def pe)
  next
    case False
    then have tot: "le64 (Priority (s2 m2)) p" using le64_total[OF pn pm2] by blast
    have "\<forall>r\<in>L. G2 r = None \<longrightarrow> le64 (Priority (s2 m2)) (Priority (s2 r))"
    proof (intro ballI impI)
      fix r assume r: "r \<in> L" "G2 r = None"
      show "le64 (Priority (s2 m2)) (Priority (s2 r))"
      proof (cases "r = e")
        case True
        with tot pe show ?thesis by simp
      next
        case False
        with least2 r show ?thesis by blast
      qed
    qed
    with False m2 show ?thesis by (simp add: min_ok_def pe)
  qed
  have sz': "size_count ?f' = int (card L)" using sz sz2 by simp
  have h': "heap_ok s2 ?f' L G2" using ok2 po2 mo' sz' by (simp add: heap_ok_def)
  have last: "(\<forall>x\<in>L. le64 p (Priority (s x))) \<longrightarrow> min_entry ?f' = Some e"
  proof
    assume all: "\<forall>x\<in>L. le64 p (Priority (s x))"
    have "le64 p (Priority (s2 m2))"
      using all m2(2) pr2[of m2] pn le64_refl by auto
    then show "min_entry ?f' = Some e" by (simp add: pe)
  qed
  have pG: "\<And>x. x \<in> L \<Longrightarrow> parent (s x) = G x" using d(4) by (simp add: parents_ok_def)
  have pG2: "\<And>x. x \<in> L \<Longrightarrow> parent (s2 x) = G2 x"
    using struct_okD(4)[OF ok2] by (simp add: parents_ok_def)
  have c1: "\<forall>x. marked (s2 x) \<longrightarrow> marked (s x) \<or> ancestor s x e"
    using k1 anc_ancestor[OF d(4)] by blast
  have c2: "\<forall>x. marked (s2 x) \<and> parent (s2 x) = None \<longrightarrow> parent (s x) = None"
  proof (intro allI impI)
    fix x assume x: "marked (s2 x) \<and> parent (s2 x) = None"
    show "parent (s x) = None"
    proof (cases "x \<in> L")
      case True
      with x k2[of x] pG pG2 show ?thesis by simp
    next
      case False
      with fr2 x show ?thesis by simp
    qed
  qed
  have c3: "\<forall>x. parent (s2 x) = parent (s x) \<or> parent (s2 x) = None"
  proof
    fix x show "parent (s2 x) = parent (s x) \<or> parent (s2 x) = None"
    proof (cases "x \<in> L")
      case True
      with k3[of x] pG pG2 show ?thesis by simp
    next
      case False
      with fr2 show ?thesis by simp
    qed
  qed
  have c4: "\<forall>x. Priority (s2 x) = (if x = e then p else Priority (s x))" using pr2 by blast
  have c5: "\<forall>x. Element (s2 x) = Element (s x)" using el2 by blast
  have c6: "\<forall>x. x \<notin> L \<longrightarrow> s2 x = s x" using fr2 by blast
  have "dk_post s f L e p s2 ?f' G2"
    unfolding dk_post_def
    by (intro conjI) (rule h' c4 c5 c6 last c1 c2 c3)+
  with res show ?thesis by blast
qed

lemma decreaseKeyUnchecked_ok:
  assumes h: "heap_ok s f L G" and e: "e \<in> L" and le: "le64 p (Priority (s e))"
    and fuel: "card L \<le> fuel"
  shows "\<exists>s' f' G'. decreaseKeyUnchecked fuel s f e p = Inr (s', f') \<and> dk_post s f L e p s' f' G'"
proof -
  from h have ok: "struct_ok {} s L G" and po: "prio_ok s L G" and mo: "min_ok s f L G"
    and sz: "size_count f = int (card L)"
    by (simp_all add: heap_ok_def)
  note d = struct_okD[OF ok]
  have pn: "p \<noteq> NaN" using le le64_not_NaN by blast
  have nn: "\<And>x. x \<in> L \<Longrightarrow> Priority (s x) \<noteq> NaN" using po by (simp add: prio_ok_def)
  have edge: "\<And>a q. a \<in> L \<Longrightarrow> G a = Some q \<Longrightarrow> le64 (Priority (s q)) (Priority (s a))"
    using po by (simp add: prio_ok_def)
  let ?s1 = "set_Priority s e p"
  have pr1: "\<And>x. Priority (?s1 x) = (if x = e then p else Priority (s x))" by simp
  have el1: "\<And>x. Element (?s1 x) = Element (s x)" by simp
  have mk1: "\<And>x. marked (?s1 x) = marked (s x)" by simp
  have ok1: "struct_ok {} ?s1 L G" by (rule struct_ok_fields[OF ok]) simp_all
  have nn1: "\<forall>a\<in>L. Priority (?s1 a) \<noteq> NaN" using nn pn by simp
  have fr1: "\<And>x. x \<notin> L \<Longrightarrow> ?s1 x = s x" using e by (auto simp: set_Priority_def)
  have par: "parent (?s1 e) = G e" using d(4) e by (simp add: parents_ok_def)
  from heap_ok_nonempty[OF h e] obtain m where m: "min_entry f = Some m" "m \<in> L" "G m = None"
    by blast
  have least: "\<And>a. a \<in> L \<Longrightarrow> le64 (Priority (s m)) (Priority (s a))"
    using min_least[OF h m(1)] .
  have below: "\<And>c. c \<in> L \<Longrightarrow> G c = Some e \<Longrightarrow> le64 p (Priority (s c))"
    using edge le le64_trans by blast
  have ne_child: "\<And>c. c \<in> L \<Longrightarrow> G c = Some e \<Longrightarrow> c \<noteq> e"
    using wf_not_refl[OF d(3), of e] by auto
  have same1: "\<And>x. marked (?s1 x) \<Longrightarrow> marked (s x) \<or> (x \<in> anc L G e \<and> x \<noteq> e)"
    by simp
  show ?thesis
  proof (cases "G e")
    case None
    have r: "(case parent (?s1 e) of
         None \<Rightarrow> Inr (?s1, f)
       | Some q \<Rightarrow> if le64 (Priority (?s1 e)) (Priority (?s1 q)) then cutNode fuel ?s1 f e
                   else Inr (?s1, f)) = Inr (?s1, f)"
      using par None by simp
    have po1: "prio_ok ?s1 L G"
      unfolding prio_ok_def pr1 using nn pn edge below None by auto
    have a: "\<And>r. r \<in> L \<Longrightarrow> G r = None \<Longrightarrow> r \<noteq> e \<Longrightarrow> le64 (Priority (?s1 m)) (Priority (?s1 r))"
    proof -
      fix r assume r: "r \<in> L" "G r = None" "r \<noteq> e"
      show "le64 (Priority (?s1 m)) (Priority (?s1 r))"
      proof (cases "m = e")
        case True
        with le least[OF r(1)] r(3) show ?thesis using le64_trans by auto
      next
        case False
        with least[OF r(1)] r(3) show ?thesis by simp
      qed
    qed
    have nr: "G e \<noteq> None \<Longrightarrow> \<not> le64 p (Priority (?s1 m))" using None by simp
    show ?thesis
      by (rule dk_finish[OF h e pn r ok1 po1 pr1 el1 fr1 refl m a nr same1]) simp_all
  next
    case (Some q)
    have qL: "q \<in> L" using d(2) e Some by (auto simp: closed_G_def)
    have qe: "q \<noteq> e" using wf_not_refl[OF d(3), of e] e Some by auto
    have me: "m \<noteq> e" using m(3) Some by auto
    show ?thesis
    proof (cases "le64 p (Priority (s q))")
      case False
      have r: "(case parent (?s1 e) of
           None \<Rightarrow> Inr (?s1, f)
         | Some q \<Rightarrow> if le64 (Priority (?s1 e)) (Priority (?s1 q)) then cutNode fuel ?s1 f e
                     else Inr (?s1, f)) = Inr (?s1, f)"
        using par Some False qe by simp
      from False have qp: "le64 (Priority (s q)) p" using le64_total[OF pn nn[OF qL]] by blast
      have po1: "prio_ok ?s1 L G"
        unfolding prio_ok_def pr1 using nn pn edge below Some qp ne_child qe by auto
      have a: "\<And>r. r \<in> L \<Longrightarrow> G r = None \<Longrightarrow> r \<noteq> e \<Longrightarrow> le64 (Priority (?s1 m)) (Priority (?s1 r))"
        using least me by simp
      have "\<not> le64 p (Priority (s m))"
      proof
        assume "le64 p (Priority (s m))"
        then have "le64 p (Priority (s q))" using least[OF qL] by (rule le64_trans)
        with False show False by simp
      qed
      then have nr: "G e \<noteq> None \<Longrightarrow> \<not> le64 p (Priority (?s1 m))" using me by simp
      show ?thesis
        by (rule dk_finish[OF h e pn r ok1 po1 pr1 el1 fr1 refl m a nr same1]) simp_all
    next
      case True
      have mo1: "min_ok ?s1 f L G"
        unfolding min_ok_def using m least me Some by (auto simp: pr1)
      have ax: "\<forall>a\<in>anc L G e. a \<notin> {}" by simp
      have "card (anc L G e) \<le> card L"
        using anc_subset[OF d(2) e] d(1) by (rule card_mono[rotated])
      with fuel have cd: "card (anc L G e) \<le> fuel" by simp
      from cutNode_ok[OF ok1 e ax mo1 nn1 cd] obtain s2 f2 G2
        where res: "cutNode fuel ?s1 f e = Inr (s2, f2)"
          and cp: "cut_post {} ?s1 L G e s2 f2 G2"
        by blast
      have q: "struct_ok {} s2 L G2" "G2 e = None" "\<forall>x\<in>L. G2 x = G x \<or> G2 x = None"
        "min_ok s2 f2 L G2"
        "\<forall>x. Priority (s2 x) = Priority (?s1 x) \<and> Element (s2 x) = Element (?s1 x)"
        "\<forall>x. x \<notin> L \<longrightarrow> s2 x = ?s1 x"
        "\<forall>x. marked (s2 x) \<longrightarrow> x \<noteq> e \<and> (marked (?s1 x) \<or> x \<in> anc L G e)"
        "\<forall>x\<in>L. marked (s2 x) \<and> G2 x = None \<longrightarrow> G x = None"
        using cp unfolding cut_post_def by simp_all
      have r: "(case parent (?s1 e) of
           None \<Rightarrow> Inr (?s1, f)
         | Some q \<Rightarrow> if le64 (Priority (?s1 e)) (Priority (?s1 q)) then cutNode fuel ?s1 f e
                     else Inr (?s1, f)) = Inr (s2, f2)"
        using par Some True qe res by simp
      have pr2: "\<And>x. Priority (s2 x) = (if x = e then p else Priority (s x))"
        using q(5) by simp
      have el2: "\<And>x. Element (s2 x) = Element (s x)" using q(5) by simp
      have fr2: "\<And>x. x \<notin> L \<Longrightarrow> s2 x = s x" using q(6) fr1 by simp
      have po2: "prio_ok s2 L G2"
        unfolding prio_ok_def pr2
      proof (intro conjI ballI allI impI)
        fix a assume "a \<in> L"
        then show "(if a = e then p else Priority (s a)) \<noteq> NaN" using nn pn by simp
      next
        fix a qq assume a: "a \<in> L" "G2 a = Some qq"
        with q(2) have ae: "a \<noteq> e" by auto
        from a q(3) have Ga: "G a = Some qq" by auto
        show "le64 (if qq = e then p else Priority (s qq)) (if a = e then p else Priority (s a))"
          using ae edge[OF a(1) Ga] below[OF a(1)] Ga by auto
      qed
      have "sibs L G2 None \<noteq> {}" using e q(2) by auto
      with q(4) obtain m2 where m2: "min_entry f2 = Some m2" "m2 \<in> L" "G2 m2 = None"
        and l2: "\<forall>r\<in>L. G2 r = None \<longrightarrow> le64 (Priority (s2 m2)) (Priority (s2 r))"
        by (auto simp: min_ok_def split: option.splits)
      have a: "\<And>r. r \<in> L \<Longrightarrow> G2 r = None \<Longrightarrow> r \<noteq> e \<Longrightarrow> le64 (Priority (s2 m2)) (Priority (s2 r))"
        using l2 by blast
      have nr: "G2 e \<noteq> None \<Longrightarrow> \<not> le64 p (Priority (s2 m2))" using q(2) by simp
      have sz2: "size_count f2 = size_count f"
        using cutNode_size[OF res] .
      have k1: "\<And>x. marked (s2 x) \<Longrightarrow> marked (s x) \<or> (x \<in> anc L G e \<and> x \<noteq> e)"
        using q(7) by auto
      have k2: "\<And>x. x \<in> L \<Longrightarrow> marked (s2 x) \<Longrightarrow> G2 x = None \<Longrightarrow> G x = None"
        using q(8) by blast
      have k3: "\<And>x. x \<in> L \<Longrightarrow> G2 x = G x \<or> G2 x = None" using q(3) by auto
      show ?thesis
        by (rule dk_finish[OF h e pn r q(1) po2 pr2 el2 fr2 sz2 m2 a nr k1 k2 k3])
    qed
  qed
qed

section \<open>Heaps by their entries\<close>

lemmas deq_postD =
  deq_post_def[THEN iffD1, THEN conjunct1]
  deq_post_def[THEN iffD1, THEN conjunct2, THEN conjunct1]
  deq_post_def[THEN iffD1, THEN conjunct2, THEN conjunct2, THEN conjunct1]
  deq_post_def[THEN iffD1, THEN conjunct2, THEN conjunct2, THEN conjunct2, THEN conjunct1]
  deq_post_def[THEN iffD1, THEN conjunct2, THEN conjunct2, THEN conjunct2, THEN conjunct2]

lemmas dk_postD =
  dk_post_def[THEN iffD1, THEN conjunct1]
  dk_post_def[THEN iffD1, THEN conjunct2, THEN conjunct1]
  dk_post_def[THEN iffD1, THEN conjunct2, THEN conjunct2, THEN conjunct1]
  dk_post_def[THEN iffD1, THEN conjunct2, THEN conjunct2, THEN conjunct2, THEN conjunct1]
  dk_post_def[THEN iffD1, THEN conjunct2, THEN conjunct2, THEN conjunct2, THEN conjunct2, THEN conjunct1]
  dk_post_def[THEN iffD1, THEN conjunct2, THEN conjunct2, THEN conjunct2, THEN conjunct2, THEN conjunct2, THEN conjunct1]
  dk_post_def[THEN iffD1, THEN conjunct2, THEN conjunct2, THEN conjunct2, THEN conjunct2, THEN conjunct2, THEN conjunct2, THEN conjunct1]
  dk_post_def[THEN iffD1, THEN conjunct2, THEN conjunct2, THEN conjunct2, THEN conjunct2, THEN conjunct2, THEN conjunct2, THEN conjunct2]

lemma hinvI: "heap_ok s f L G \<Longrightarrow> hinv s f"
  unfolding hinv_def by blast

lemma hinvE:
  assumes "hinv s f"
  obtains G where "heap_ok s f (entries s f) G"
proof -
  from assms obtain L G where h: "heap_ok s f L G" unfolding hinv_def by blast
  with entries_eq[OF h] that show thesis by simp
qed

lemma hinv_size:
  assumes "hinv s f"
  shows "finite (entries s f)" and "size_count f = int (card (entries s f))"
proof -
  from assms obtain G where h: "heap_ok s f (entries s f) G" by (rule hinvE)
  then show "finite (entries s f)" by (simp add: heap_ok_def struct_ok_def)
  from h show "size_count f = int (card (entries s f))" by (simp add: heap_ok_def)
qed

lemma hinv_empty: "hinv s f \<Longrightarrow> (size_count f = 0) = (entries s f = {})"
  using hinv_size[of s f] by auto


lemma DequeueMin_of_table:
  "DequeueMin_table fuel s f = Inr (s', f', r, T) \<Longrightarrow> DequeueMin fuel s f = Inr (s', f', r)"
  by (simp add: DequeueMin_def)

lemma hinv_dequeue:
  assumes h: "hinv s f" and nz: "size_count f \<noteq> 0" and fuel: "size_count f \<le> int fuel"
  obtains m s' f' T' where "min_entry f = Some m" and "least_in s f m"
    and "DequeueMin_table fuel s f = Inr (s', f', Some m, T')"
    and "hinv s' f'" and "entries s' f' = entries s f - {m}"
    and "size_count f' = size_count f - 1"
    and "roots_differ s' f'"
    and "\<forall>x. Priority (s' x) = Priority (s x) \<and> Element (s' x) = Element (s x)"
    and "\<forall>x. x \<notin> entries s f - {m} \<longrightarrow> s' x = s x"
    and "\<forall>x. parent (s' x) = None \<and> marked (s' x) \<longrightarrow>
             marked (s x) \<and> (parent (s x) = None \<or> parent (s x) = Some m)"
proof -
  let ?L = "entries s f"
  from h obtain G where ok: "heap_ok s f ?L G" by (rule hinvE)
  from DequeueMin_table_ok[OF ok nz fuel] obtain m s' f' T' G'
    where m: "min_entry f = Some m" "m \<in> ?L"
      and res: "DequeueMin_table fuel s f = Inr (s', f', Some m, T')"
      and dp: "deq_post s ?L m s' f' T' G'"
    by blast
  note h' = deq_postD(1)[OF dp] and tab = deq_postD(2)[OF dp] and keep = deq_postD(3)[OF dp]
    and fr = deq_postD(4)[OF dp] and mk = deq_postD(5)[OF dp]
  have en: "entries s' f' = ?L - {m}" using entries_eq[OF h'] .
  have lm: "least_in s f m" using min_least[OF ok m(1)] m(2) by (simp add: least_in_def)
  have fin: "finite ?L" using hinv_size(1)[OF h] .
  have "card ?L > 0" using m(2) fin by (auto simp: card_gt_0_iff)
  then have "int (card (?L - {m})) = int (card ?L) - 1"
    using m(2) fin by (simp add: card_Diff_singleton of_nat_diff)
  with h' hinv_size(2)[OF h] have sz: "size_count f' = size_count f - 1"
    by (simp add: heap_ok_def)
  have pG: "\<And>x. x \<in> ?L - {m} \<Longrightarrow> parent (s' x) = G' x"
    using h' by (simp add: heap_ok_def struct_ok_def parents_ok_def)
  have rd: "roots_differ s' f'"
    unfolding roots_differ_def en
  proof (intro ballI impI)
    fix r1 r2 assume r: "r1 \<in> ?L - {m}" "r2 \<in> ?L - {m}" "parent (s' r1) = None"
      "parent (s' r2) = None" "r1 \<noteq> r2"
    then have ne: "?L - {m} \<noteq> {}" by blast
    with tab have t: "tab_ok s' (?L - {m}) G' T'"
      and all: "\<forall>r\<in>?L - {m}. G' r = None \<longrightarrow> r \<in> tabset T'" by blast+
    from r pG all have "r1 \<in> tabset T'" "r2 \<in> tabset T'" by auto
    then obtain d1 d2 where d: "d1 < length T'" "T' ! d1 = Some r1" "d2 < length T'" "T' ! d2 = Some r2"
      by (auto simp: tabset_iff)
    with t have "degree (s' r1) = int d1" "degree (s' r2) = int d2"
      unfolding tab_ok_def by blast+
    moreover have "d1 \<noteq> d2" using d r(5) by auto
    ultimately show "degree (s' r1) \<noteq> degree (s' r2)" by simp
  qed
  show thesis
    by (rule that[OF m(1) lm res hinvI[OF h'] en sz rd keep fr mk])
qed

lemma hinv_dequeue_empty:
  assumes "size_count f = 0"
  shows "DequeueMin fuel s f = Inr (s, f, None)"
  using assms by (simp add: DequeueMin_def DequeueMin_table_def)


subsection \<open>Extraction in order\<close>


subsection \<open>DecreaseKey and Delete\<close>


lemma hinv_decrease:
  assumes h: "hinv s f" and e: "e \<in> entries s f" and le: "le64 p (Priority (s e))"
    and fuel: "size_count f \<le> int fuel"
  obtains s' f' where "decreaseKeyUnchecked fuel s f e p = Inr (s', f')"
    and "DecreaseKey fuel s f e p = Inr (s', f', None)"
    and "hinv s' f'" and "entries s' f' = entries s f" and "size_count f' = size_count f"
    and "\<forall>x. Priority (s' x) = (if x = e then p else Priority (s x))"
    and "\<forall>x. Element (s' x) = Element (s x)"
    and "\<forall>x. x \<notin> entries s f \<longrightarrow> s' x = s x"
    and "(\<forall>x\<in>entries s f. le64 p (Priority (s x))) \<longrightarrow> min_entry f' = Some e"
    and "\<forall>x. marked (s' x) \<longrightarrow> marked (s x) \<or> ancestor s x e"
    and "\<forall>x. marked (s' x) \<and> parent (s' x) = None \<longrightarrow> parent (s x) = None"
    and "\<forall>x. parent (s' x) = parent (s x) \<or> parent (s' x) = None"
proof -
  let ?L = "entries s f"
  from h obtain G where ok: "heap_ok s f ?L G" by (rule hinvE)
  from fuel hinv_size(2)[OF h] have fl: "card ?L \<le> fuel" by simp
  from decreaseKeyUnchecked_ok[OF ok e le fl] obtain s' f' G'
    where res: "decreaseKeyUnchecked fuel s f e p = Inr (s', f')"
      and dp: "dk_post s f ?L e p s' f' G'"
    by blast
  note h' = dk_postD(1)[OF dp]
  have "\<not> lt64 (Priority (s e)) p"
    using le by (cases p; cases "Priority (s e)") auto
  with res have dk: "DecreaseKey fuel s f e p = Inr (s', f', None)"
    by (simp add: DecreaseKey_def)
  have en: "entries s' f' = ?L" using entries_eq[OF h'] .
  have sz: "size_count f' = size_count f"
    using h' hinv_size(2)[OF h] by (simp add: heap_ok_def)
  show thesis
    by (rule that[OF res dk hinvI[OF h'] en sz dk_postD(2)[OF dp] dk_postD(3)[OF dp]
          dk_postD(4)[OF dp] dk_postD(5)[OF dp] dk_postD(6)[OF dp] dk_postD(7)[OF dp]
          dk_postD(8)[OF dp]])
qed

lemma hinv_no_NaN: "hinv s f \<Longrightarrow> a \<in> entries s f \<Longrightarrow> Priority (s a) \<noteq> NaN"
  by (erule hinvE) (simp add: heap_ok_def prio_ok_def)

lemma hinv_not_own_ancestor:
  assumes h: "hinv s f" and c: "c \<in> entries s f" and p: "parent (s c) = Some e"
  shows "\<not> ancestor s c e"
proof
  let ?L = "entries s f"
  assume a: "ancestor s c e"
  from h obtain G where ok: "heap_ok s f ?L G" by (rule hinvE)
  then have st: "struct_ok {} s ?L G" by (simp add: heap_ok_def)
  note d = struct_okD[OF st]
  have pG: "\<And>x. x \<in> ?L \<Longrightarrow> parent (s x) = G x" using d(4) by (simp add: parents_ok_def)
  have up: "\<And>x y. (x, y) \<in> (parent_rel s)\<^sup>+ \<Longrightarrow> y \<in> ?L \<Longrightarrow> (x, y) \<in> (rel_G ?L G)\<^sup>+"
  proof -
    fix x y assume "(x, y) \<in> (parent_rel s)\<^sup>+" "y \<in> ?L"
    then show "(x, y) \<in> (rel_G ?L G)\<^sup>+"
    proof (induction rule: converse_trancl_induct)
      case (base x)
      then show ?case using pG by (auto simp: parent_rel_def)
    next
      case (step x z)
      from step.IH[OF step.prems] have zy: "(z, y) \<in> (rel_G ?L G)\<^sup>+" .
      then have "z \<in> ?L"
        using d(2) step.prems by (induction rule: trancl_induct) (auto simp: closed_G_def)
      with step.hyps(1) pG have "(x, z) \<in> rel_G ?L G" by (auto simp: parent_rel_def)
      then show ?case using zy by (rule trancl_into_trancl2)
    qed
  qed
  have ec: "(e, c) \<in> rel_G ?L G" using c p pG by simp
  then have eL: "e \<in> ?L" using d(2) c by (auto simp: closed_G_def)
  from a have "(c, e) \<in> (rel_G ?L G)\<^sup>+" unfolding ancestor_def using up eL by blast
  from this ec have "(c, c) \<in> (rel_G ?L G)\<^sup>+" by (rule trancl_into_trancl)
  with wf_trancl[OF d(3)] show False by (metis wf_not_refl)
qed

lemma hinv_delete:
  assumes h: "hinv s f" and e: "e \<in> entries s f" and fuel: "size_count f \<le> int fuel"
  obtains s1 f1 s' f' where "DecreaseKey fuel s f e NegInf = Inr (s1, f1, None)"
    and "DequeueMin fuel s1 f1 = Inr (s', f', Some e)"
    and "Delete fuel s f e = Inr (s', f')"
    and "hinv s' f'" and "entries s' f' = entries s f - {e}"
    and "size_count f' = size_count f - 1"
    and "\<forall>x. x \<noteq> e \<longrightarrow> Priority (s' x) = Priority (s x)"
    and "\<forall>x. Element (s' x) = Element (s x)"
    and "\<forall>x. x \<notin> entries s f \<longrightarrow> s' x = s x"
    and "\<forall>x. parent (s' x) = None \<and> marked (s' x) \<longrightarrow>
            (parent (s x) = None \<and> (marked (s x) \<or> ancestor s x e))
             \<or> (marked (s x) \<and> parent (s x) = Some e)"
proof -
  let ?L = "entries s f"
  have le: "le64 NegInf (Priority (s e))" using hinv_no_NaN[OF h e] by (rule le64_NegInf)
  have all: "\<forall>x\<in>?L. le64 NegInf (Priority (s x))"
    using hinv_no_NaN[OF h] le64_NegInf by blast
  obtain s1 f1
    where du: "decreaseKeyUnchecked fuel s f e NegInf = Inr (s1, f1)"
      and dk: "DecreaseKey fuel s f e NegInf = Inr (s1, f1, None)"
      and h1: "hinv s1 f1" and en1: "entries s1 f1 = ?L" and sz1: "size_count f1 = size_count f"
      and pr1: "\<forall>x. Priority (s1 x) = (if x = e then NegInf else Priority (s x))"
      and el1: "\<forall>x. Element (s1 x) = Element (s x)"
      and fr1: "\<forall>x. x \<notin> ?L \<longrightarrow> s1 x = s x"
      and m1': "(\<forall>x\<in>?L. le64 NegInf (Priority (s x))) \<longrightarrow> min_entry f1 = Some e"
      and k1: "\<forall>x. marked (s1 x) \<longrightarrow> marked (s x) \<or> ancestor s x e"
      and k2: "\<forall>x. marked (s1 x) \<and> parent (s1 x) = None \<longrightarrow> parent (s x) = None"
      and k3: "\<forall>x. parent (s1 x) = parent (s x) \<or> parent (s1 x) = None"
    by (rule hinv_decrease[OF h e le fuel])
  from m1' all have m1: "min_entry f1 = Some e" by simp
  have nz: "size_count f1 \<noteq> 0" using hinv_empty[OF h1] en1 e by auto
  from fuel sz1 have fl1: "size_count f1 \<le> int fuel" by simp
  obtain m s' f' T'
    where mm: "min_entry f1 = Some m"
      and res: "DequeueMin_table fuel s1 f1 = Inr (s', f', Some m, T')"
      and h': "hinv s' f'" and en: "entries s' f' = entries s1 f1 - {m}"
      and sz: "size_count f' = size_count f1 - 1"
      and keep: "\<forall>x. Priority (s' x) = Priority (s1 x) \<and> Element (s' x) = Element (s1 x)"
      and fr: "\<forall>x. x \<notin> entries s1 f1 - {m} \<longrightarrow> s' x = s1 x"
      and mk: "\<forall>x. parent (s' x) = None \<and> marked (s' x) \<longrightarrow>
             marked (s1 x) \<and> (parent (s1 x) = None \<or> parent (s1 x) = Some m)"
    by (rule hinv_dequeue[OF h1 nz fl1])
  from mm m1 have me: "m = e" by simp
  have dq: "DequeueMin fuel s1 f1 = Inr (s', f', Some e)"
    using DequeueMin_of_table[OF res] me by simp
  have del: "Delete fuel s f e = Inr (s', f')" by (simp add: Delete_def du dq)
  have 0: "entries s' f' = ?L - {e}" using en en1 me by simp
  have 00: "size_count f' = size_count f - 1" using sz sz1 by simp
  have 1: "\<forall>x. x \<noteq> e \<longrightarrow> Priority (s' x) = Priority (s x)" using keep pr1 by simp
  have 2: "\<forall>x. Element (s' x) = Element (s x)" using keep el1 by simp
  have 3: "\<forall>x. x \<notin> ?L \<longrightarrow> s' x = s x" using fr fr1 en1 by simp
  have 4: "\<forall>x. parent (s' x) = None \<and> marked (s' x) \<longrightarrow>
            (parent (s x) = None \<and> (marked (s x) \<or> ancestor s x e))
             \<or> (marked (s x) \<and> parent (s x) = Some e)"
  proof (intro allI impI)
    fix x assume x: "parent (s' x) = None \<and> marked (s' x)"
    with mk me have a: "marked (s1 x)" and b: "parent (s1 x) = None \<or> parent (s1 x) = Some e"
      by blast+
    from b show "(parent (s x) = None \<and> (marked (s x) \<or> ancestor s x e))
             \<or> (marked (s x) \<and> parent (s x) = Some e)"
    proof
      assume "parent (s1 x) = None"
      with a k1 k2 show ?thesis by blast
    next
      assume c: "parent (s1 x) = Some e"
      from k3 have "parent (s1 x) = parent (s x) \<or> parent (s1 x) = None" ..
      with c have p: "parent (s x) = Some e" by auto
      have xL: "x \<in> ?L"
      proof (rule ccontr)
        assume "x \<notin> ?L"
        with fr1 fr en1 have "s' x = s1 x" by simp
        with x c show False by simp
      qed
      from hinv_not_own_ancestor[OF h xL p] a k1 have "marked (s x)" by blast
      with p show ?thesis by simp
    qed
  qed
  show thesis by (rule that[OF dk dq del h' 0 00 1 2 3 4])
qed

section \<open>More fuel, same result\<close>

lemma clear_parents_mono:
  "clear_parents n s m c = Inr r \<Longrightarrow> n \<le> n' \<Longrightarrow> clear_parents n' s m c = Inr r"
proof (induction n s m c arbitrary: n' rule: clear_parents.induct)
  case (1 s m cur)
  then show ?case by simp
next
  case (2 n s m cur)
  from "2.prems"(2) obtain k where k: "n' = Suc k" "n \<le> k" by (cases n') auto
  define s1 where "s1 = set_parent s cur None"
  have unf: "\<And>j. clear_parents (Suc j) s m cur =
      (if Some (next (s1 cur)) = child (s1 m) then Inr s1 else clear_parents j s1 m (next (s1 cur)))"
    by (simp only: clear_parents.simps Let_def s1_def)
  show ?case
  proof (cases "Some (next (s1 cur)) = child (s1 m)")
    case True
    with "2.prems"(1) show ?thesis unfolding k unf by simp
  next
    case False
    with "2.prems"(1) have "clear_parents n s1 m (next (s1 cur)) = Inr r"
      unfolding unf by simp
    from "2.IH"[OF s1_def refl False this k(2)] False show ?thesis
      unfolding k unf by simp
  qed
qed

lemma collect_mono:
  "collect n s vs c = Inr r \<Longrightarrow> n \<le> n' \<Longrightarrow> collect n' s vs c = Inr r"
proof (induction n s vs c arbitrary: n' rule: collect.induct)
  case (1 s toVisit cur)
  then show ?case by simp
next
  case (2 n s toVisit cur)
  from "2.prems"(2) obtain k where k: "n' = Suc k" "n \<le> k" by (cases n') auto
  show ?case
  proof (cases "toVisit = [] \<or> hd toVisit \<noteq> cur")
    case True
    with "2.prems"(1) have "collect n s (toVisit @ [cur]) (next (s cur)) = Inr r" by simp
    from "2.IH"[OF True this k(2)] True k show ?thesis by simp
  next
    case False
    with "2.prems"(1) k show ?thesis by simp
  qed
qed

lemma cutNode_mono:
  "cutNode n s f e = Inr r \<Longrightarrow> n \<le> n' \<Longrightarrow> cutNode n' s f e = Inr r"
proof (induction n arbitrary: s f e r n')
  case 0
  then show ?case by simp
next
  case (Suc n)
  from Suc.prems(2) obtain k where k: "n' = Suc k" "n \<le> k" by (cases n') auto
  let ?s1 = "set_marked s e False"
  show ?case
  proof (cases "parent (?s1 e)")
    case None
    with Suc.prems(1) k show ?thesis by simp
  next
    case (Some p)
    let ?c = "cut_step ?s1 f e p"
    show ?thesis
    proof (cases "marked (fst ?c p)")
      case False
      with Some Suc.prems(1) k show ?thesis by (simp add: Let_def)
    next
      case True
      with Some Suc.prems(1) obtain r1 where r1: "cutNode n (fst ?c) (snd ?c) p = Inr r1"
        by (auto simp: Let_def split: sum.splits)
      from Suc.IH[OF r1 k(2)] have "cutNode k (fst ?c) (snd ?c) p = Inr r1" .
      with r1 True Some Suc.prems(1) k show ?thesis by (simp add: Let_def)
    qed
  qed
qed

lemma clear_children_mono:
  "clear_children n s m = Inr r \<Longrightarrow> n \<le> n' \<Longrightarrow> clear_children n' s m = Inr r"
  by (auto simp: clear_children_def split: option.splits intro: clear_parents_mono)

lemma DequeueMin_table_mono:
  assumes "DequeueMin_table n s f = Inr r" and "n \<le> n'"
  shows "DequeueMin_table n' s f = Inr r"
proof (cases "size_count f = 0")
  case True
  with assms show ?thesis by (simp add: DequeueMin_table_def)
next
  case nz: False
  let ?f1 = "f\<lparr>size_count := size_count f - 1\<rparr>"
  from assms(1) nz obtain m where m: "min_entry f = Some m"
    by (cases "min_entry f") (auto simp: DequeueMin_table_def Let_def)
  let ?u = "unlink_min s ?f1 m"
  from assms(1) nz m obtain s3 where s3: "clear_children n (fst ?u) m = Inr s3"
    by (cases "clear_children n (fst ?u) m") (auto simp: DequeueMin_table_def Let_def)
  from clear_children_mono[OF s3 assms(2)] have s3': "clear_children n' (fst ?u) m = Inr s3" .
  let ?r = "mergeLists s3 (min_entry (snd ?u)) (child (s3 m))"
  show ?thesis
  proof (cases "snd ?r")
    case None
    with assms(1) nz m s3 s3' show ?thesis by (simp add: DequeueMin_table_def Let_def)
  next
    case (Some c0)
    with assms(1) nz m s3 obtain vs where vs: "collect n (fst ?r) [] c0 = Inr vs"
      by (cases "collect n (fst ?r) [] c0") (auto simp: DequeueMin_table_def Let_def)
    from collect_mono[OF vs assms(2)] have vs': "collect n' (fst ?r) [] c0 = Inr vs" .
    from assms(1) nz m s3 s3' Some vs vs' show ?thesis
      by (simp add: DequeueMin_table_def Let_def)
  qed
qed

lemma DequeueMin_mono:
  assumes "DequeueMin n s f = Inr (s', f', r)" and "n \<le> n'"
  shows "DequeueMin n' s f = Inr (s', f', r)"
proof -
  from assms(1) obtain T where "DequeueMin_table n s f = Inr (s', f', r, T)"
    by (auto simp: DequeueMin_def split: sum.splits)
  from DequeueMin_table_mono[OF this assms(2)] show ?thesis by (simp add: DequeueMin_def)
qed

lemma decreaseKeyUnchecked_mono:
  assumes "decreaseKeyUnchecked n s f e p = Inr r" and "n \<le> n'"
  shows "decreaseKeyUnchecked n' s f e p = Inr r"
proof -
  let ?s1 = "set_Priority s e p"
  show ?thesis
  proof (cases "parent (?s1 e)")
    case None
    with assms(1) show ?thesis by (simp add: decreaseKeyUnchecked_def Let_def)
  next
    case (Some q)
    show ?thesis
    proof (cases "le64 (Priority (?s1 e)) (Priority (?s1 q))")
      case False
      with Some assms(1) show ?thesis by (simp add: decreaseKeyUnchecked_def Let_def)
    next
      case True
      with Some assms(1) obtain r1 where r1: "cutNode n ?s1 f e = Inr r1"
        by (cases "cutNode n ?s1 f e") (auto simp: decreaseKeyUnchecked_def Let_def)
      from cutNode_mono[OF r1 assms(2)] have "cutNode n' ?s1 f e = Inr r1" .
      with r1 True Some assms(1) show ?thesis by (simp add: decreaseKeyUnchecked_def Let_def)
    qed
  qed
qed

lemma DecreaseKey_mono:
  assumes "DecreaseKey n s f e p = Inr r" and "n \<le> n'"
  shows "DecreaseKey n' s f e p = Inr r"
proof (cases "lt64 (Priority (s e)) p")
  case True
  with assms show ?thesis by (simp add: DecreaseKey_def)
next
  case False
  with assms(1) obtain r1 where r1: "decreaseKeyUnchecked n s f e p = Inr r1"
    by (cases "decreaseKeyUnchecked n s f e p") (auto simp: DecreaseKey_def)
  from decreaseKeyUnchecked_mono[OF r1 assms(2)] r1 False assms(1) show ?thesis
    by (simp add: DecreaseKey_def)
qed

lemma Delete_mono:
  assumes "Delete n s f e = Inr r" and "n \<le> n'"
  shows "Delete n' s f e = Inr r"
proof -
  from assms(1) obtain s1 f1 where r1: "decreaseKeyUnchecked n s f e NegInf = Inr (s1, f1)"
    by (cases "decreaseKeyUnchecked n s f e NegInf") (auto simp: Delete_def)
  with assms(1) obtain s2 f2 r2 where r2: "DequeueMin n s1 f1 = Inr (s2, f2, r2)"
    by (cases "DequeueMin n s1 f1") (auto simp: Delete_def)
  from decreaseKeyUnchecked_mono[OF r1 assms(2)] DequeueMin_mono[OF r2 assms(2)] r1 r2 assms(1)
  show ?thesis by (simp add: Delete_def)
qed

section \<open>Worlds\<close>

subsection \<open>Results for any fuel that suffices\<close>

lemma hinv_dequeue_returned:
  assumes h: "hinv s f" and nz: "size_count f \<noteq> 0"
    and res: "DequeueMin_table fuel s f = Inr (s', f', r, T')"
  obtains m where "r = Some m" and "min_entry f = Some m" and "least_in s f m"
    and "hinv s' f'" and "entries s' f' = entries s f - {m}"
    and "size_count f' = size_count f - 1"
    and "roots_differ s' f'"
    and "\<forall>x. Priority (s' x) = Priority (s x) \<and> Element (s' x) = Element (s x)"
    and "\<forall>x. x \<notin> entries s f - {m} \<longrightarrow> s' x = s x"
    and "\<forall>x. parent (s' x) = None \<and> marked (s' x) \<longrightarrow>
             marked (s x) \<and> (parent (s x) = None \<or> parent (s x) = Some m)"
proof -
  let ?n = "max fuel (nat (size_count f))"
  have fl: "size_count f \<le> int ?n" by simp
  obtain m s2 f2 T2 where a: "min_entry f = Some m" "least_in s f m"
    and r2: "DequeueMin_table ?n s f = Inr (s2, f2, Some m, T2)"
    and b: "hinv s2 f2" "entries s2 f2 = entries s f - {m}"
      "size_count f2 = size_count f - 1" "roots_differ s2 f2"
      "\<forall>x. Priority (s2 x) = Priority (s x) \<and> Element (s2 x) = Element (s x)"
      "\<forall>x. x \<notin> entries s f - {m} \<longrightarrow> s2 x = s x"
      "\<forall>x. parent (s2 x) = None \<and> marked (s2 x) \<longrightarrow>
             marked (s x) \<and> (parent (s x) = None \<or> parent (s x) = Some m)"
    by (rule hinv_dequeue[OF h nz fl])
  have "DequeueMin_table ?n s f = Inr (s', f', r, T')"
    by (rule DequeueMin_table_mono[OF res]) simp
  with r2 have e: "s2 = s'" "f2 = f'" "r = Some m" by simp_all
  show thesis
    by (rule that[OF e(3) a b[unfolded e]])
qed

lemma hinv_decrease_returned:
  assumes h: "hinv s f" and e: "e \<in> entries s f" and le: "le64 p (Priority (s e))"
    and res: "DecreaseKey fuel s f e p = Inr (s', f', r)"
  obtains "r = None" and "decreaseKeyUnchecked fuel s f e p = Inr (s', f')"
    and "hinv s' f'" and "entries s' f' = entries s f" and "size_count f' = size_count f"
    and "\<forall>x. Priority (s' x) = (if x = e then p else Priority (s x))"
    and "\<forall>x. Element (s' x) = Element (s x)"
    and "\<forall>x. x \<notin> entries s f \<longrightarrow> s' x = s x"
    and "(\<forall>x\<in>entries s f. le64 p (Priority (s x))) \<longrightarrow> min_entry f' = Some e"
    and "\<forall>x. marked (s' x) \<longrightarrow> marked (s x) \<or> ancestor s x e"
    and "\<forall>x. marked (s' x) \<and> parent (s' x) = None \<longrightarrow> parent (s x) = None"
    and "\<forall>x. parent (s' x) = parent (s x) \<or> parent (s' x) = None"
proof -
  let ?n = "max fuel (nat (size_count f))"
  have fl: "size_count f \<le> int ?n" by simp
  obtain s2 f2 where r2: "DecreaseKey ?n s f e p = Inr (s2, f2, None)"
    and b: "hinv s2 f2" "entries s2 f2 = entries s f" "size_count f2 = size_count f"
      "\<forall>x. Priority (s2 x) = (if x = e then p else Priority (s x))"
      "\<forall>x. Element (s2 x) = Element (s x)"
      "\<forall>x. x \<notin> entries s f \<longrightarrow> s2 x = s x"
      "(\<forall>x\<in>entries s f. le64 p (Priority (s x))) \<longrightarrow> min_entry f2 = Some e"
      "\<forall>x. marked (s2 x) \<longrightarrow> marked (s x) \<or> ancestor s x e"
      "\<forall>x. marked (s2 x) \<and> parent (s2 x) = None \<longrightarrow> parent (s x) = None"
      "\<forall>x. parent (s2 x) = parent (s x) \<or> parent (s2 x) = None"
    by (rule hinv_decrease[OF h e le fl])
  have "DecreaseKey ?n s f e p = Inr (s', f', r)"
    by (rule DecreaseKey_mono[OF res]) simp
  with r2 have q: "s2 = s'" "f2 = f'" "r = None" by simp_all
  have "\<not> lt64 (Priority (s e)) p"
    using le by (cases p; cases "Priority (s e)") auto
  with res q(3) have du: "decreaseKeyUnchecked fuel s f e p = Inr (s', f')"
    by (cases "decreaseKeyUnchecked fuel s f e p") (auto simp: DecreaseKey_def)
  show thesis
    by (rule that[OF q(3) du b[unfolded q]])
qed

lemma hinv_delete_returned:
  assumes h: "hinv s f" and e: "e \<in> entries s f"
    and res: "Delete fuel s f e = Inr (s', f')"
  obtains "hinv s' f'" and "entries s' f' = entries s f - {e}"
    and "size_count f' = size_count f - 1"
    and "\<forall>x. x \<noteq> e \<longrightarrow> Priority (s' x) = Priority (s x)"
    and "\<forall>x. Element (s' x) = Element (s x)"
    and "\<forall>x. x \<notin> entries s f \<longrightarrow> s' x = s x"
    and "\<forall>x. parent (s' x) = None \<and> marked (s' x) \<longrightarrow>
            (parent (s x) = None \<and> (marked (s x) \<or> ancestor s x e))
             \<or> (marked (s x) \<and> parent (s x) = Some e)"
proof -
  let ?n = "max fuel (nat (size_count f))"
  have fl: "size_count f \<le> int ?n" by simp
  obtain s1 f1 s2 f2 where r2: "Delete ?n s f e = Inr (s2, f2)"
    and b: "hinv s2 f2" "entries s2 f2 = entries s f - {e}"
      "size_count f2 = size_count f - 1"
      "\<forall>x. x \<noteq> e \<longrightarrow> Priority (s2 x) = Priority (s x)"
      "\<forall>x. Element (s2 x) = Element (s x)"
      "\<forall>x. x \<notin> entries s f \<longrightarrow> s2 x = s x"
      "\<forall>x. parent (s2 x) = None \<and> marked (s2 x) \<longrightarrow>
            (parent (s x) = None \<and> (marked (s x) \<or> ancestor s x e))
             \<or> (marked (s x) \<and> parent (s x) = Some e)"
    by (rule hinv_delete[OF h e fl])
  have "Delete ?n s f e = Inr (s', f')"
    by (rule Delete_mono[OF res]) simp
  with r2 have q: "s2 = s'" "f2 = f'" by simp_all
  show thesis
    by (rule that[OF b[unfolded q]])
qed

subsection \<open>The heaps of a world\<close>

lemma hinv_frame:
  assumes h: "hinv s f" and same: "\<forall>x\<in>entries s f. s' x = s x"
  shows "hinv s' f" and "entries s' f = entries s f"
proof -
  from h obtain G where ok: "heap_ok s f (entries s f) G" by (rule hinvE)
  from heap_ok_frame[OF ok same] have ok': "heap_ok s' f (entries s f) G" .
  then show "hinv s' f" by (rule hinvI)
  from ok' show "entries s' f = entries s f" by (rule entries_eq)
qed

lemma hinv_empty_heap:
  "hinv s \<lparr>min_entry = None, size_count = 0\<rparr>"
  "entries s \<lparr>min_entry = None, size_count = 0\<rparr> = {}"
proof -
  have ok: "heap_ok s \<lparr>min_entry = None, size_count = 0\<rparr> {} (\<lambda>_. None)" by (rule empty_heap_ok)
  then show "hinv s \<lparr>min_entry = None, size_count = 0\<rparr>" by (rule hinvI)
  from ok show "entries s \<lparr>min_entry = None, size_count = 0\<rparr> = {}" by (rule entries_eq)
qed

lemma winvD:
  assumes "winv w"
  shows "\<And>i. i < length (heaps w) \<Longrightarrow> hinv (mem w) (heaps w ! i)"
    and "\<And>i. i < length (heaps w) \<Longrightarrow> entries (mem w) (heaps w ! i) \<subseteq> {..<nalloc w}"
    and "\<And>i j. i < length (heaps w) \<Longrightarrow> j < length (heaps w) \<Longrightarrow> i \<noteq> j \<Longrightarrow>
           entries (mem w) (heaps w ! i) \<inter> entries (mem w) (heaps w ! j) = {}"
  using assms unfolding winv_def by blast+

lemma winv_init: "winv \<lparr>mem = s0, nalloc = 0, heaps = []\<rparr>"
  by (simp add: winv_def)

lemma all_entries_init: "all_entries \<lparr>mem = s0, nalloc = 0, heaps = []\<rparr> = {}"
  by (simp add: all_entries_def)

lemma winv_new:
  assumes w: "winv w"
  shows "winv (w_new w)" and "all_entries (w_new w) = all_entries w"
proof -
  let ?e = "\<lparr>min_entry = None, size_count = 0\<rparr>"
  have nth: "\<And>k. k < Suc (length (heaps w)) \<Longrightarrow>
      entries (mem w) ((heaps w @ [?e]) ! k) = (if k < length (heaps w) then entries (mem w) (heaps w ! k) else {})"
    by (simp add: nth_append hinv_empty_heap(2))
  have hk: "\<And>k. k < Suc (length (heaps w)) \<Longrightarrow> hinv (mem w) ((heaps w @ [?e]) ! k)"
    using winvD(1)[OF w] by (auto simp: nth_append hinv_empty_heap(1) less_Suc_eq)
  show "winv (w_new w)"
    unfolding winv_def w_new_def
    using hk nth winvD(2,3)[OF w] by (auto simp: less_Suc_eq)
  show "all_entries (w_new w) = all_entries w"
    unfolding all_entries_def w_new_def using nth
    by (auto simp: less_Suc_eq)
qed

lemma winv_update:
  assumes w: "winv w" and i: "i < length (heaps w)"
    and h': "hinv s' f'"
    and sub: "entries s' f' \<subseteq> entries (mem w) (heaps w ! i) \<union> {nalloc w..<n'}"
    and n: "nalloc w \<le> n'"
    and fr: "\<forall>x. x \<notin> entries (mem w) (heaps w ! i) \<union> {nalloc w..<n'} \<longrightarrow> s' x = mem w x"
  shows "winv \<lparr>mem = s', nalloc = n', heaps = (heaps w)[i := f']\<rparr>"
    and "all_entries \<lparr>mem = s', nalloc = n', heaps = (heaps w)[i := f']\<rparr>
           \<subseteq> all_entries w \<union> {nalloc w..<n'}"
    and "\<And>k. k < length (heaps w) \<Longrightarrow> k \<noteq> i \<Longrightarrow>
           entries s' ((heaps w)[i := f'] ! k) = entries (mem w) (heaps w ! k)"
proof -
  let ?E = "\<lambda>k. entries (mem w) (heaps w ! k)"
  let ?E' = "\<lambda>k. entries s' ((heaps w)[i := f'] ! k)"
  note d = winvD[OF w]
  have other: "\<And>k. k < length (heaps w) \<Longrightarrow> k \<noteq> i \<Longrightarrow>
      hinv s' (heaps w ! k) \<and> entries s' (heaps w ! k) = ?E k"
  proof -
    fix k assume k: "k < length (heaps w)" "k \<noteq> i"
    have "\<forall>x\<in>?E k. s' x = mem w x"
    proof
      fix x assume x: "x \<in> ?E k"
      with d(3)[OF k(1) i k(2)] have "x \<notin> ?E i" by blast
      moreover from x d(2)[OF k(1)] have "x < nalloc w" by blast
      ultimately show "s' x = mem w x" using fr by simp
    qed
    from hinv_frame[OF d(1)[OF k(1)] this]
    show "hinv s' (heaps w ! k) \<and> entries s' (heaps w ! k) = ?E k" by simp
  qed
  have E'i: "?E' i \<subseteq> ?E i \<union> {nalloc w..<n'}" using sub i by simp
  have E'k: "\<And>k. k < length (heaps w) \<Longrightarrow> k \<noteq> i \<Longrightarrow> ?E' k = ?E k"
    using other by simp
  have hk: "\<And>k. k < length (heaps w) \<Longrightarrow> hinv s' ((heaps w)[i := f'] ! k)"
  proof -
    fix k assume "k < length (heaps w)"
    then show "hinv s' ((heaps w)[i := f'] ! k)"
      using other[of k] h' by (cases "k = i") simp_all
  qed
  have bound: "\<And>k. k < length (heaps w) \<Longrightarrow> ?E' k \<subseteq> {..<n'}"
  proof -
    fix k assume k: "k < length (heaps w)"
    show "?E' k \<subseteq> {..<n'}"
    proof (cases "k = i")
      case True
      have "?E i \<union> {nalloc w..<n'} \<subseteq> {..<n'}" using d(2)[OF i] n by fastforce
      with E'i True show ?thesis by blast
    next
      case False
      have "?E k \<subseteq> {..<n'}" using d(2)[OF k] n by fastforce
      with E'k[OF k False] show ?thesis by simp
    qed
  qed
  have dj: "\<And>k l. k < length (heaps w) \<Longrightarrow> l < length (heaps w) \<Longrightarrow> k \<noteq> l \<Longrightarrow> ?E' k \<inter> ?E' l = {}"
  proof -
    fix k l assume kl: "k < length (heaps w)" "l < length (heaps w)" "k \<noteq> l"
    have new: "\<And>m. m < length (heaps w) \<Longrightarrow> ?E m \<inter> {nalloc w..<n'} = {}"
      using d(2) by fastforce
    show "?E' k \<inter> ?E' l = {}"
    proof (cases "k = i")
      case True
      with kl have li: "l \<noteq> i" by simp
      from E'k[OF kl(2) li] E'i True d(3)[OF i kl(2)] li new[OF kl(2)] show ?thesis by blast
    next
      case False
      show ?thesis
      proof (cases "l = i")
        case True
        from E'k[OF kl(1) False] E'i True d(3)[OF kl(1) i False] new[OF kl(1)] show ?thesis by blast
      next
        case li: False
        from E'k[OF kl(1) False] E'k[OF kl(2) li] d(3)[OF kl] show ?thesis by simp
      qed
    qed
  qed
  show "winv \<lparr>mem = s', nalloc = n', heaps = (heaps w)[i := f']\<rparr>"
    unfolding winv_def using hk bound dj by simp
  show "\<And>k. k < length (heaps w) \<Longrightarrow> k \<noteq> i \<Longrightarrow> ?E' k = ?E k"
    by (rule E'k)
  show "all_entries \<lparr>mem = s', nalloc = n', heaps = (heaps w)[i := f']\<rparr>
           \<subseteq> all_entries w \<union> {nalloc w..<n'}"
  proof
    fix x assume "x \<in> all_entries \<lparr>mem = s', nalloc = n', heaps = (heaps w)[i := f']\<rparr>"
    then obtain k where k: "k < length (heaps w)" "x \<in> ?E' k" by (auto simp: all_entries_def)
    show "x \<in> all_entries w \<union> {nalloc w..<n'}"
    proof (cases "k = i")
      case True
      with k E'i i show ?thesis unfolding all_entries_def by blast
    next
      case False
      with k E'k[OF k(1) False] show ?thesis unfolding all_entries_def by blast
    qed
  qed
qed

section \<open>The calls keep the invariant of the world\<close>

lemma emptied [simp]: "(f::FibHeap)\<lparr>min_entry := None, size_count := 0\<rparr> = \<lparr>min_entry = None, size_count = 0\<rparr>"
  by (cases f) simp

lemma w_merge_eq:
  "w_merge w i j =
     \<lparr>mem = fst (MergeFibHeap (mem w) (heaps w ! i) (heaps w ! j)), nalloc = nalloc w,
      heaps = (heaps w)[i := \<lparr>min_entry = None, size_count = 0\<rparr>,
                        j := \<lparr>min_entry = None, size_count = 0\<rparr>]
              @ [fst (snd (MergeFibHeap (mem w) (heaps w ! i) (heaps w ! j)))]\<rparr>"
  by (simp add: w_merge_def MergeFibHeap_def Let_def)

lemma winv_merge:
  assumes w: "winv w" and i: "i < length (heaps w)" and j: "j < length (heaps w)" and ij: "i \<noteq> j"
  shows "winv (w_merge w i j)" and "all_entries (w_merge w i j) \<subseteq> all_entries w"
proof -
  let ?n = "length (heaps w)"
  let ?A = "heaps w ! i" and ?B = "heaps w ! j"
  let ?s' = "fst (MergeFibHeap (mem w) ?A ?B)"
  let ?res = "fst (snd (MergeFibHeap (mem w) ?A ?B))"
  let ?e = "\<lparr>min_entry = None, size_count = 0\<rparr>"
  let ?H = "(heaps w)[i := ?e, j := ?e] @ [?res]"
  let ?E = "\<lambda>k. entries (mem w) (heaps w ! k)"
  note d = winvD[OF w]
  from d(1)[OF i] obtain GA where a: "heap_ok (mem w) ?A (?E i) GA" by (rule hinvE)
  from d(1)[OF j] obtain GB where b: "heap_ok (mem w) ?B (?E j) GB" by (rule hinvE)
  note dij = d(3)[OF i j ij]
  from Merge_heap_ok[OF a b dij] have ok: "heap_ok ?s' ?res (?E i \<union> ?E j) (join_G (?E i) GA GB)" .
  have hres: "hinv ?s' ?res" using ok by (rule hinvI)
  have eres: "entries ?s' ?res = ?E i \<union> ?E j" using ok by (rule entries_eq)
  have fr: "\<And>x. x \<notin> ?E i \<union> ?E j \<Longrightarrow> ?s' x = mem w x"
    by (rule Merge_frame[OF a b]) (auto simp: sibs_def)
  have other: "\<And>k. k < ?n \<Longrightarrow> k \<noteq> i \<Longrightarrow> k \<noteq> j \<Longrightarrow>
      hinv ?s' (heaps w ! k) \<and> entries ?s' (heaps w ! k) = ?E k"
  proof -
    fix k assume k: "k < ?n" "k \<noteq> i" "k \<noteq> j"
    have "\<forall>x\<in>?E k. ?s' x = mem w x"
    proof
      fix x assume "x \<in> ?E k"
      with d(3)[OF k(1) i k(2)] d(3)[OF k(1) j k(3)] have "x \<notin> ?E i \<union> ?E j" by blast
      then show "?s' x = mem w x" by (rule fr)
    qed
    from hinv_frame[OF d(1)[OF k(1)] this]
    show "hinv ?s' (heaps w ! k) \<and> entries ?s' (heaps w ! k) = ?E k" by simp
  qed
  define D where "D = (\<lambda>k. if k = ?n then ?E i \<union> ?E j else if k = i \<or> k = j then {} else ?E k)"
  have Hk: "\<And>k. k < Suc ?n \<Longrightarrow> hinv ?s' (?H ! k) \<and> entries ?s' (?H ! k) = D k"
  proof -
    fix k assume k: "k < Suc ?n"
    show "hinv ?s' (?H ! k) \<and> entries ?s' (?H ! k) = D k"
    proof (cases "k = ?n")
      case True
      with hres eres show ?thesis by (simp add: nth_append D_def)
    next
      case False
      with k have kn: "k < ?n" by simp
      show ?thesis
      proof (cases "k = i \<or> k = j")
        case True
        with kn i j have "?H ! k = ?e" by (auto simp: nth_append nth_list_update)
        with True kn show ?thesis by (simp add: D_def hinv_empty_heap)
      next
        case ne: False
        with kn have "?H ! k = heaps w ! k" by (simp add: nth_append nth_list_update)
        with other[of k] kn ne show ?thesis by (simp add: D_def)
      qed
    qed
  qed
  have bound: "\<And>k. k < Suc ?n \<Longrightarrow> D k \<subseteq> {..<nalloc w}"
    using d(2) i j unfolding D_def by (auto simp: less_Suc_eq)
  have dj: "\<And>k l. k < Suc ?n \<Longrightarrow> l < Suc ?n \<Longrightarrow> k \<noteq> l \<Longrightarrow> D k \<inter> D l = {}"
  proof -
    fix k l assume kl: "k < Suc ?n" "l < Suc ?n" "k \<noteq> l"
    have x: "\<And>m. m < ?n \<Longrightarrow> m \<noteq> i \<Longrightarrow> m \<noteq> j \<Longrightarrow> ?E m \<inter> (?E i \<union> ?E j) = {}"
      using d(3) i j by blast
    show "D k \<inter> D l = {}"
    proof (cases "k = ?n")
      case True
      with kl have "l < ?n" by simp
      with True x[of l] show ?thesis unfolding D_def by auto
    next
      case False
      with kl have kn: "k < ?n" by simp
      show ?thesis
      proof (cases "l = ?n")
        case True
        with kn x[of k] show ?thesis unfolding D_def by auto
      next
        case False
        with kl have ln: "l < ?n" by simp
        from d(3)[OF kn ln kl(3)] kn ln show ?thesis unfolding D_def by auto
      qed
    qed
  qed
  show "winv (w_merge w i j)"
    unfolding winv_def w_merge_eq using Hk bound dj by simp
  show "all_entries (w_merge w i j) \<subseteq> all_entries w"
  proof
    fix x assume "x \<in> all_entries (w_merge w i j)"
    then obtain k where k: "k < Suc ?n" "x \<in> entries ?s' (?H ! k)"
      unfolding all_entries_def w_merge_eq by auto
    with Hk[OF k(1)] have "x \<in> D k" by simp
    then show "x \<in> all_entries w"
      unfolding D_def all_entries_def using i j k(1)
      by (auto split: if_splits simp: less_Suc_eq)
  qed
qed

lemma winv_enqueue:
  assumes w: "winv w" and i: "i < length (heaps w)" and p: "p \<noteq> NaN"
  shows "winv (w_enqueue w i el p)"
    and "all_entries (w_enqueue w i el p) \<subseteq> all_entries w \<union> {nalloc w..<Suc (nalloc w)}"
proof -
  let ?f = "heaps w ! i" and ?a = "nalloc w"
  let ?E = "entries (mem w) ?f"
  let ?s' = "fst (Enqueue (mem w) ?f ?a el p)" and ?f' = "fst (snd (Enqueue (mem w) ?f ?a el p))"
  note d = winvD[OF w]
  from d(1)[OF i] obtain G where ok: "heap_ok (mem w) ?f ?E G" by (rule hinvE)
  have fresh: "?a \<notin> ?E" using d(2)[OF i] by auto
  from Enqueue_heap_ok[OF ok fresh p]
  have ok': "heap_ok ?s' ?f' (insert ?a ?E) (G(?a := None))" .
  have h': "hinv ?s' ?f'" using ok' by (rule hinvI)
  have "entries ?s' ?f' = insert ?a ?E" using ok' by (rule entries_eq)
  then have sub: "entries ?s' ?f' \<subseteq> ?E \<union> {?a..<Suc ?a}" by auto
  have fr: "\<forall>x. x \<notin> ?E \<union> {?a..<Suc ?a} \<longrightarrow> ?s' x = mem w x"
  proof (intro allI impI)
    fix x assume "x \<notin> ?E \<union> {?a..<Suc ?a}"
    then have "x \<notin> insert ?a ?E" by auto
    with ok show "?s' x = mem w x"
      by (intro Enqueue_frame[where L = ?E and G = G]) (simp_all add: heap_ok_def fresh)
  qed
  have eq: "w_enqueue w i el p = \<lparr>mem = ?s', nalloc = Suc ?a, heaps = (heaps w)[i := ?f']\<rparr>"
    by (simp add: w_enqueue_def split: prod.splits)
  show "winv (w_enqueue w i el p)"
    unfolding eq by (rule winv_update(1)[OF w i h' sub _ fr]) simp
  show "all_entries (w_enqueue w i el p) \<subseteq> all_entries w \<union> {nalloc w..<Suc (nalloc w)}"
    unfolding eq by (rule winv_update(2)[OF w i h' sub _ fr]) simp
qed

lemma winv_same:
  assumes w: "winv w" and i: "i < length (heaps w)"
    and h': "hinv s' f'" and sub: "entries s' f' \<subseteq> entries (mem w) (heaps w ! i)"
    and fr: "\<forall>x. x \<notin> entries (mem w) (heaps w ! i) \<longrightarrow> s' x = mem w x"
  shows "winv \<lparr>mem = s', nalloc = nalloc w, heaps = (heaps w)[i := f']\<rparr>
     \<and> nalloc w \<le> nalloc \<lparr>mem = s', nalloc = nalloc w, heaps = (heaps w)[i := f']\<rparr>
     \<and> all_entries \<lparr>mem = s', nalloc = nalloc w, heaps = (heaps w)[i := f']\<rparr>
         \<subseteq> all_entries w \<union> {nalloc w..<nalloc \<lparr>mem = s', nalloc = nalloc w, heaps = (heaps w)[i := f']\<rparr>}"
proof -
  have sub': "entries s' f' \<subseteq> entries (mem w) (heaps w ! i) \<union> {nalloc w..<nalloc w}"
    using sub by simp
  have fr': "\<forall>x. x \<notin> entries (mem w) (heaps w ! i) \<union> {nalloc w..<nalloc w} \<longrightarrow> s' x = mem w x"
    using fr by simp
  from winv_update(1,2)[OF w i h' sub' le_refl fr'] show ?thesis by simp
qed

lemma world_same: "i < length (heaps w) \<Longrightarrow>
    \<lparr>mem = mem w, nalloc = nalloc w, heaps = (heaps w)[i := heaps w ! i]\<rparr> = (w :: 'e world)"
  by simp

lemma winv_exec:
  assumes w: "winv w" and v: "valid_call w c" and ex: "exec fuel w c = Inr w'"
  shows "winv w' \<and> nalloc w \<le> nalloc w'
      \<and> all_entries w' \<subseteq> all_entries w \<union> {nalloc w..<nalloc w'}"
proof (cases c)
  case NewHeap
  with ex have "w' = w_new w" by simp
  with winv_new[OF w] show ?thesis by (simp add: w_new_def)
next
  case (CallEnqueue i el p)
  with ex v have e: "w' = w_enqueue w i el p" and i: "i < length (heaps w)" and p: "p \<noteq> NaN"
    by simp_all
  have "nalloc (w_enqueue w i el p) = Suc (nalloc w)"
    by (simp add: w_enqueue_def split: prod.splits)
  with winv_enqueue[OF w i p, of el] e show ?thesis by simp
next
  case (CallDequeueMin i)
  with ex v have i: "i < length (heaps w)" and r: "w_dequeue fuel w i = Inr w'" by simp_all
  let ?f = "heaps w ! i"
  from r obtain s' f' rr where res: "DequeueMin fuel (mem w) ?f = Inr (s', f', rr)"
    and w': "w' = \<lparr>mem = s', nalloc = nalloc w, heaps = (heaps w)[i := f']\<rparr>"
    by (auto simp: w_dequeue_def split: sum.splits)
  note h = winvD(1)[OF w i]
  show ?thesis
  proof (cases "size_count ?f = 0")
    case True
    with res have "s' = mem w" "f' = ?f" by (simp_all add: hinv_dequeue_empty)
    then have "w' = w" unfolding w' using i by simp
    with w show ?thesis by simp
  next
    case False
    from res obtain T where t: "DequeueMin_table fuel (mem w) ?f = Inr (s', f', rr, T)"
      by (auto simp: DequeueMin_def split: sum.splits)
    obtain m where "hinv s' f'" "entries s' f' = entries (mem w) ?f - {m}"
      "\<forall>x. x \<notin> entries (mem w) ?f - {m} \<longrightarrow> s' x = mem w x"
      by (rule hinv_dequeue_returned[OF h False t])
    then have "hinv s' f'" "entries s' f' \<subseteq> entries (mem w) ?f"
      "\<forall>x. x \<notin> entries (mem w) ?f \<longrightarrow> s' x = mem w x"
      by auto
    from winv_same[OF w i this] show ?thesis unfolding w' .
  qed
next
  case (CallDecreaseKey i e p)
  with ex v have i: "i < length (heaps w)" and e: "e \<in> entries (mem w) (heaps w ! i)"
    and p: "p \<noteq> NaN" and r: "w_decrease fuel w i e p = Inr w'" by simp_all
  let ?f = "heaps w ! i"
  from r obtain s' f' rr where res: "DecreaseKey fuel (mem w) ?f e p = Inr (s', f', rr)"
    and w': "w' = \<lparr>mem = s', nalloc = nalloc w, heaps = (heaps w)[i := f']\<rparr>"
    by (auto simp: w_decrease_def split: sum.splits)
  note h = winvD(1)[OF w i]
  show ?thesis
  proof (cases "lt64 (Priority (mem w e)) p")
    case True
    with res have "s' = mem w" "f' = ?f" by (simp_all add: DecreaseKey_def)
    then have "w' = w" unfolding w' using i by simp
    with w show ?thesis by simp
  next
    case False
    with p hinv_no_NaN[OF h e] have le: "le64 p (Priority (mem w e))" by (simp add: not_lt64)
    have "hinv s' f'" "entries s' f' \<subseteq> entries (mem w) ?f"
      "\<forall>x. x \<notin> entries (mem w) ?f \<longrightarrow> s' x = mem w x"
      by (rule hinv_decrease_returned[OF h e le res]; simp)+
    from winv_same[OF w i this] show ?thesis unfolding w' .
  qed
next
  case (CallDelete i e)
  with ex v have i: "i < length (heaps w)" and e: "e \<in> entries (mem w) (heaps w ! i)"
    and r: "w_delete fuel w i e = Inr w'" by simp_all
  let ?f = "heaps w ! i"
  from r obtain s' f' where res: "Delete fuel (mem w) ?f e = Inr (s', f')"
    and w': "w' = \<lparr>mem = s', nalloc = nalloc w, heaps = (heaps w)[i := f']\<rparr>"
    by (auto simp: w_delete_def split: sum.splits)
  note h = winvD(1)[OF w i]
  have "hinv s' f'" "entries s' f' \<subseteq> entries (mem w) ?f"
    "\<forall>x. x \<notin> entries (mem w) ?f \<longrightarrow> s' x = mem w x"
    by (rule hinv_delete_returned[OF h e res]; auto)+
  from winv_same[OF w i this] show ?thesis unfolding w' .
next
  case (CallMerge i j)
  with ex v have e: "w' = w_merge w i j" and i: "i < length (heaps w)" "j < length (heaps w)" "i \<noteq> j"
    by simp_all
  with winv_merge[OF w i] show ?thesis by (auto simp: w_merge_eq)
qed

lemma later_winv:
  assumes "later w w'" and "winv w"
  shows "winv w' \<and> nalloc w \<le> nalloc w'
      \<and> all_entries w' \<subseteq> all_entries w \<union> {nalloc w..<nalloc w'}"
  using assms
proof (induction rule: later.induct)
  case later_refl
  then show ?case by simp
next
  case (later_step w' c fuel w'')
  from later_step.IH[OF later_step.prems] have a: "winv w'" "nalloc w \<le> nalloc w'"
    "all_entries w' \<subseteq> all_entries w \<union> {nalloc w..<nalloc w'}" by simp_all
  from winv_exec[OF a(1) later_step.hyps(2,3)] have b: "winv w''" "nalloc w' \<le> nalloc w''"
    "all_entries w'' \<subseteq> all_entries w' \<union> {nalloc w'..<nalloc w''}" by simp_all
  have "all_entries w'' \<subseteq> all_entries w \<union> {nalloc w..<nalloc w''}"
  proof
    fix x assume "x \<in> all_entries w''"
    with b(3) have "x \<in> all_entries w' \<or> (nalloc w' \<le> x \<and> x < nalloc w'')" by auto
    with a(2,3) b(2) show "x \<in> all_entries w \<union> {nalloc w..<nalloc w''}" by fastforce
  qed
  with a(2) b(1,2) show ?case by simp
qed

lemma reach_winv: "reach w \<Longrightarrow> winv w"
  unfolding reach_def using later_winv winv_init by blast

lemma later_trans:
  assumes "later w w'" and "later w' w''"
  shows "later w w''"
  using assms(2,1) by (induction rule: later.induct) (auto intro: later.intros)

lemma reach_later: "reach w \<Longrightarrow> later w w' \<Longrightarrow> reach w'"
  unfolding reach_def using later_trans by blast


section \<open>No nil pointer, no endless loop\<close>

lemma reach_hinv: "reach w \<Longrightarrow> i < length (heaps w) \<Longrightarrow> hinv (mem w) (heaps w ! i)"
  using winvD(1)[OF reach_winv] .

lemma Enqueue_parent:
  "parent (fst (Enqueue s f a el p) x) = (if x = a then None else parent (s x))"
  "marked (fst (Enqueue s f a el p) x) = (if x = a then False else marked (s x))"
  by (simp_all add: Enqueue_results)

lemma Merge_parent:
  "parent (fst (MergeFibHeap s one two) x) = parent (s x)"
  "marked (fst (MergeFibHeap s one two) x) = marked (s x)"
  by (simp_all add: Merge_results)





lemma hinv_cutNode:
  assumes h: "hinv s f" and e: "e \<in> entries s f" and fuel: "size_count f \<le> int fuel"
  shows "\<exists>r. cutNode fuel s f e = Inr r"
proof -
  let ?L = "entries s f"
  from h obtain G where ok: "heap_ok s f ?L G" by (rule hinvE)
  then have st: "struct_ok {} s ?L G" and mo: "min_ok s f ?L G" and po: "prio_ok s ?L G"
    by (simp_all add: heap_ok_def)
  note d = struct_okD[OF st]
  have nn: "\<forall>a\<in>?L. Priority (s a) \<noteq> NaN" using po by (simp add: prio_ok_def)
  have "card (anc ?L G e) \<le> card ?L"
    using anc_subset[OF d(2) e] d(1) by (rule card_mono[rotated])
  with fuel hinv_size(2)[OF h] have cd: "card (anc ?L G e) \<le> fuel" by simp
  from cutNode_ok[OF st e _ mo nn cd] show ?thesis by auto
qed

lemma hinv_dequeue_returns:
  assumes h: "hinv s f" and fuel: "size_count f \<le> int fuel"
  shows "\<exists>r. DequeueMin fuel s f = Inr r"
proof (cases "size_count f = 0")
  case True
  then show ?thesis by (simp add: hinv_dequeue_empty)
next
  case False
  obtain m s' f' T' where "DequeueMin_table fuel s f = Inr (s', f', Some m, T')"
    by (rule hinv_dequeue[OF h False fuel])
  from DequeueMin_of_table[OF this] show ?thesis by blast
qed

section \<open>More concrete runs\<close>

lemma length_w_new [simp]: "length (heaps (w_new w)) = Suc (length (heaps w))"
  by (simp add: w_new_def)

lemma length_w_enqueue [simp]: "length (heaps (w_enqueue w i el p)) = length (heaps w)"
  by (simp add: w_enqueue_def split: prod.splits)

lemma reach_new: "reach w \<Longrightarrow> reach (w_new w)"
  by (rule reach_step[where c = NewHeap and fuel = 0]) simp_all

lemma reach_enqueue:
  "reach w \<Longrightarrow> i < length (heaps w) \<Longrightarrow> p \<noteq> NaN \<Longrightarrow> reach (w_enqueue w i el p)"
  by (rule reach_step[where c = "CallEnqueue i el p" and fuel = 0]) simp_all

lemma length_run0 [simp]: "length (heaps run0) = 0"
  by (simp add: run0_def)

lemma runS_reach: "reach runS"
  unfolding runS_def by (intro reach_enqueue reach_new run0_reach) simp_all


lemma dequeue_run:
  "w_dequeue n w i = Inr w' \<Longrightarrow> i < length (heaps w) \<Longrightarrow>
   \<exists>r. DequeueMin n (mem w) (heaps w ! i) = Inr (mem w', heaps w' ! i, r)"
  by (auto simp: w_dequeue_def split: sum.splits)

lemma runS1_step: "w_dequeue 4 runS 0 = Inr runS1"
proof -
  have "\<not> isl (w_dequeue 4 runS 0)" by code_simp
  then show ?thesis unfolding runS1_def by (rule isl_case_Inr)
qed

lemma run4_entry: "2 \<in> entries (mem run4) (heaps run4 ! 0)"
proof -
  have m: "min_entry (heaps run4 ! 0) = Some 1" "child (mem run4 1) = Some 2" by code_simp+
  show ?thesis by (rule entries_child[OF entries_min], rule m, rule m)
qed

section \<open>Properties\<close>







text \<open>
  C4 (as stated, it fails). After \<open>Enqueue\<close> of 1, 2 and 3, a \<open>DequeueMin\<close> and
  the \<open>DecreaseKey\<close> of entry 2 to 0, entry 1 is a root of the heap (it belongs to
  the heap and has no parent) and it is marked: \<open>cutNode\<close> marks the parent of the
  entry it cuts whether or not that parent is a root.
\<close>

theorem C4_counterexample:
  "reach run5 \<and> 1 \<in> entries (mem run5) (heaps run5 ! 0) \<and> parent (mem run5 1) = None
     \<and> marked (mem run5 1)"
proof -
  have m: "min_entry (heaps run5 ! 0) = Some 2" "next (mem run5 2) = 1" by code_simp+
  have "next (mem run5 2) \<in> entries (mem run5) (heaps run5 ! 0)"
    by (rule entries_next[OF entries_min], rule m)
  then have "1 \<in> entries (mem run5) (heaps run5 ! 0)" by (simp add: m)
  moreover have "parent (mem run5 1) = None" "marked (mem run5 1)" by code_simp+
  ultimately show ?thesis using run5_reach by simp
qed

text \<open>
  C4 (amended). A root can be marked, but only in the following ways. In every
  reachable world (calls used as documented: heaps that exist, two different heaps
  for a merge, priorities that are numbers, entries that belong to the heap), when a
  call returns and an entry \<open>a\<close> is then a marked root, then \<open>a\<close> was a marked root
  before the call, or the call is \<open>DequeueMin\<close> and \<open>a\<close> was a marked child of the
  minimum, or the call is \<open>DecreaseKey\<close> or \<open>Delete\<close> of an entry \<open>e\<close> and \<open>a\<close> was
  a root and an ancestor of \<open>e\<close>, or the call is \<open>Delete\<close> of \<open>e\<close> and \<open>a\<close> was a
  marked child of \<open>e\<close>. So \<open>Enqueue\<close>, \<open>Min\<close>, \<open>Len\<close> and \<open>Merge\<close> keep the roots
  unmarked, \<open>DequeueMin\<close> does when the minimum has no marked child, and
  \<open>DecreaseKey\<close> does when the entry is a root.
\<close>

theorem C4_marked_roots:
  assumes r: "reach w" and v: "valid_call w c" and ex: "exec fuel w c = Inr w'"
    and a: "parent (mem w' a) = None" "marked (mem w' a)"
  shows "(parent (mem w a) = None \<and> marked (mem w a)) \<or> makes_marked_root w c a"
proof (cases c)
  case NewHeap
  with ex a show ?thesis by (auto simp: w_new_def)
next
  case (CallEnqueue i el p)
  with ex have "mem w' = fst (Enqueue (mem w) (heaps w ! i) (nalloc w) el p)"
    by (auto simp: w_enqueue_def split: prod.splits)
  with a show ?thesis by (auto simp: Enqueue_parent split: if_splits)
next
  case (CallMerge i j)
  with ex have "w' = w_merge w i j" by simp
  then have "mem w' = fst (MergeFibHeap (mem w) (heaps w ! i) (heaps w ! j))"
    by (simp add: w_merge_eq)
  with a show ?thesis by (simp add: Merge_parent)
next
  case (CallDequeueMin i)
  with ex v have i: "i < length (heaps w)" and rr: "w_dequeue fuel w i = Inr w'" by simp_all
  let ?f = "heaps w ! i"
  from rr obtain s' f' ro where res: "DequeueMin fuel (mem w) ?f = Inr (s', f', ro)"
    and w': "mem w' = s'"
    by (auto simp: w_dequeue_def split: sum.splits)
  note h = reach_hinv[OF r i]
  show ?thesis
  proof (cases "size_count ?f = 0")
    case True
    with res w' a show ?thesis by (simp add: hinv_dequeue_empty)
  next
    case False
    from res obtain T where t: "DequeueMin_table fuel (mem w) ?f = Inr (s', f', ro, T)"
      by (auto simp: DequeueMin_def split: sum.splits)
    obtain m where m: "min_entry ?f = Some m"
      and mk: "\<forall>x. parent (s' x) = None \<and> marked (s' x) \<longrightarrow>
             marked (mem w x) \<and> (parent (mem w x) = None \<or> parent (mem w x) = Some m)"
      by (rule hinv_dequeue_returned[OF h False t])
    from mk a w' have "marked (mem w a) \<and> (parent (mem w a) = None \<or> parent (mem w a) = Some m)"
      by simp
    with m CallDequeueMin show ?thesis by auto
  qed
next
  case (CallDecreaseKey i e p)
  with ex v have i: "i < length (heaps w)" and e: "e \<in> entries (mem w) (heaps w ! i)"
    and p: "p \<noteq> NaN" and rr: "w_decrease fuel w i e p = Inr w'" by simp_all
  let ?f = "heaps w ! i"
  from rr obtain s' f' ro where res: "DecreaseKey fuel (mem w) ?f e p = Inr (s', f', ro)"
    and w': "mem w' = s'"
    by (auto simp: w_decrease_def split: sum.splits)
  note h = reach_hinv[OF r i]
  show ?thesis
  proof (cases "lt64 (Priority (mem w e)) p")
    case True
    with res w' a show ?thesis by (simp add: DecreaseKey_def)
  next
    case False
    with p hinv_no_NaN[OF h e] have le: "le64 p (Priority (mem w e))" by (simp add: not_lt64)
    have k1: "\<forall>x. marked (s' x) \<longrightarrow> marked (mem w x) \<or> ancestor (mem w) x e"
      and k2: "\<forall>x. marked (s' x) \<and> parent (s' x) = None \<longrightarrow> parent (mem w x) = None"
      by (rule hinv_decrease_returned[OF h e le res]; assumption)+
    from k1 k2 a w' have "parent (mem w a) = None \<and> (marked (mem w a) \<or> ancestor (mem w) a e)"
      by simp
    with CallDecreaseKey show ?thesis by auto
  qed
next
  case (CallDelete i e)
  with ex v have i: "i < length (heaps w)" and e: "e \<in> entries (mem w) (heaps w ! i)"
    and rr: "w_delete fuel w i e = Inr w'" by simp_all
  let ?f = "heaps w ! i"
  from rr obtain s' f' where res: "Delete fuel (mem w) ?f e = Inr (s', f')"
    and w': "mem w' = s'"
    by (auto simp: w_delete_def split: sum.splits)
  note h = reach_hinv[OF r i]
  have "\<forall>x. parent (s' x) = None \<and> marked (s' x) \<longrightarrow>
            (parent (mem w x) = None \<and> (marked (mem w x) \<or> ancestor (mem w) x e))
             \<or> (marked (mem w x) \<and> parent (mem w x) = Some e)"
    by (rule hinv_delete_returned[OF h e res])
  with a w' have "(parent (mem w a) = None \<and> (marked (mem w a) \<or> ancestor (mem w) a e))
             \<or> (marked (mem w a) \<and> parent (mem w a) = Some e)"
    by simp
  with CallDelete show ?thesis by auto
qed

text \<open>
  The \<open>DecreaseKey\<close> of the run above: entry 1 was an unmarked root and the parent of
  entry 2, and is a marked root afterwards.
\<close>

theorem C4_marked_roots_witness:
  "reach run4 \<and> valid_call run4 (CallDecreaseKey 0 2 (Fin 0))
   \<and> exec 3 run4 (CallDecreaseKey 0 2 (Fin 0)) = Inr run5
   \<and> parent (mem run5 1) = None \<and> marked (mem run5 1) \<and> \<not> marked (mem run4 1)
   \<and> makes_marked_root run4 (CallDecreaseKey 0 2 (Fin 0)) 1"
proof -
  have a: "parent (mem run5 1) = None" "marked (mem run5 1)" by code_simp+
  have b: "\<not> marked (mem run4 1)" by code_simp
  from run5_step have v: "valid_call run4 (CallDecreaseKey 0 2 (Fin 0))"
    and e: "exec 3 run4 (CallDecreaseKey 0 2 (Fin 0)) = Inr run5" by simp_all
  from C4_marked_roots[OF run4_reach v e a] b
  have "makes_marked_root run4 (CallDecreaseKey 0 2 (Fin 0)) 1" by blast
  with run4_reach v e a b show ?thesis by blast
qed

text \<open>
  C5. For every heap of a reachable world, \<open>DequeueMin\<close> returns when it has fuel
  for its loops, and whenever it returns, any two different roots of the heap have
  different degrees (an empty heap, and one with a single root, included).
\<close>

theorem C5_distinct_root_degrees:
  assumes "reach w" and "i < length (heaps w)"
  shows "(Len_heap (heaps w ! i) \<le> int fuel \<longrightarrow>
            (\<exists>r. DequeueMin fuel (mem w) (heaps w ! i) = Inr r))
       \<and> (\<forall>s' f' r. DequeueMin fuel (mem w) (heaps w ! i) = Inr (s', f', r) \<longrightarrow>
            roots_differ s' f')"
proof (intro conjI impI allI)
  note h = reach_hinv[OF assms]
  assume "Len_heap (heaps w ! i) \<le> int fuel"
  then have "size_count (heaps w ! i) \<le> int fuel" by (simp add: Len_heap_def)
  from hinv_dequeue_returns[OF h this]
  show "\<exists>r. DequeueMin fuel (mem w) (heaps w ! i) = Inr r" .
next
  let ?f = "heaps w ! i"
  note h = reach_hinv[OF assms]
  fix s' f' r assume res: "DequeueMin fuel (mem w) ?f = Inr (s', f', r)"
  show "roots_differ s' f'"
  proof (cases "size_count ?f = 0")
    case True
    with res have "s' = mem w" "f' = ?f" by (simp_all add: hinv_dequeue_empty)
    with hinv_empty[OF h] True show ?thesis by (simp add: roots_differ_def)
  next
    case False
    from res obtain T where t: "DequeueMin_table fuel (mem w) ?f = Inr (s', f', r, T)"
      by (auto simp: DequeueMin_def split: sum.splits)
    show ?thesis by (rule hinv_dequeue_returned[OF h False t])
  qed
qed

text \<open>
  After \<open>DequeueMin\<close> on the heap with the priorities 5, 3, 8 and 1, the roots are
  the entries 0, of degree 1, and 1, of degree 0.
\<close>

theorem C5_distinct_root_degrees_witness:
  "reach runS \<and> (\<exists>r. DequeueMin 4 (mem runS) (heaps runS ! 0) = Inr (mem runS1, heaps runS1 ! 0, r))
   \<and> roots_differ (mem runS1) (heaps runS1 ! 0)
   \<and> parent (mem runS1 0) = None \<and> parent (mem runS1 1) = None
   \<and> degree (mem runS1 0) = 1 \<and> degree (mem runS1 1) = 0"
proof -
  have h: "0 < length (heaps runS)" by code_simp
  from dequeue_run[OF runS1_step h] obtain r
    where r: "DequeueMin 4 (mem runS) (heaps runS ! 0) = Inr (mem runS1, heaps runS1 ! 0, r)" ..
  have c: "parent (mem runS1 0) = None" "parent (mem runS1 1) = None"
    "degree (mem runS1 0) = 1" "degree (mem runS1 1) = 0" by code_simp+
  from C5_distinct_root_degrees[OF runS_reach h, of 4] r
  have "roots_differ (mem runS1) (heaps runS1 ! 0)" by blast
  with runS_reach r c show ?thesis by blast
qed





text \<open>
  C8. On an empty heap (\<open>size = 0\<close>) \<open>DequeueMin\<close> panics on nothing and returns
  \<open>nil\<close>, and it leaves the store and the heap as they were, whatever they hold.
\<close>

theorem C8_dequeue_empty:
  "DequeueMin fuel s (f\<lparr>size_count := 0\<rparr>) = Inr (s, f\<lparr>size_count := 0\<rparr>, None)"
  by (simp add: DequeueMin_def DequeueMin_table_def)



text \<open>
  C10. In every heap that satisfies the invariant \<open>hinv\<close> (a finite set of
  entries, rings of siblings, a forest of parents; every heap of a reachable world
  does), with fuel at least \<open>Len\<close>: \<open>DequeueMin\<close> returns, so the loop over the
  children of the minimum and the loop that collects the roots both end within the
  fuel, once around their ring; and \<open>cutNode\<close> on any entry of the heap returns, the
  recursion going up the parents. The inner loop of the consolidation needs no
  fuel: \<open>link_loop\<close> is a total function, each turn that goes on having emptied one
  slot of the table.
\<close>

theorem C10_termination:
  assumes "hinv s f" and "Len_heap f \<le> int fuel"
  shows "(\<exists>r. DequeueMin fuel s f = Inr r) \<and> (\<forall>e\<in>entries s f. \<exists>r. cutNode fuel s f e = Inr r)"
proof
  from assms(2) have fl: "size_count f \<le> int fuel" by (simp add: Len_heap_def)
  show "\<exists>r. DequeueMin fuel s f = Inr r" by (rule hinv_dequeue_returns[OF assms(1) fl])
  show "\<forall>e\<in>entries s f. \<exists>r. cutNode fuel s f e = Inr r"
    using hinv_cutNode[OF assms(1) _ fl] by blast
qed

text \<open>
  The heap with the root 1 and its child 2: \<open>DequeueMin\<close> returns, and so does
  \<open>cutNode\<close> on entry 2.
\<close>

theorem C10_termination_witness:
  "hinv (mem run4) (heaps run4 ! 0) \<and> 2 \<in> entries (mem run4) (heaps run4 ! 0)
   \<and> (\<exists>r. DequeueMin 3 (mem run4) (heaps run4 ! 0) = Inr r)
   \<and> (\<exists>r. cutNode 3 (mem run4) (heaps run4 ! 0) 2 = Inr r)"
proof -
  have h: "0 < length (heaps run4)" "Len_heap (heaps run4 ! 0) \<le> int 3" by code_simp+
  note i = reach_hinv[OF run4_reach h(1)]
  from C10_termination[OF i h(2)] i run4_entry show ?thesis by blast
qed


end
